theory Spec2Isabelle
  imports Complex_Main "HOL-Library.AList" "HOL-Library.Sublist"
begin

section \<open>Shared data: configuration and errors\<close>

text \<open>
  The fields of \<^verbatim>\<open>Config\<close> (src/config.py) that the modelled functions read.
  Python floats are modelled as reals and Python ints as unbounded integers.
\<close>

record config =
  camera_source :: string
  insightface_threshold :: real
  min_embeddings_per_track :: int
  track_max_age_seconds :: real
  iou_threshold :: real
  in_threshold_seconds :: real
  out_threshold_seconds :: real

text \<open>The exceptions that the modelled code can raise.\<close>

datatype py_error = ValueError | IndexError | RuntimeError | RequestException

section \<open>Presence management (src/recognition/presence.py)\<close>

text \<open>
  \<^verbatim>\<open>PresenceManager.state\<close> is a dict from employee id to a dict with the three keys
  \<^verbatim>\<open>present\<close>, \<^verbatim>\<open>last_seen\<close>, \<^verbatim>\<open>last_state_change\<close>. A Python dict keeps
  insertion order and \<^verbatim>\<open>update\<close> iterates over it, so the dict is an association
  list; a dict never holds a key twice, which is the invariant \<open>distinct (map fst st)\<close>.
\<close>

record emp_state =
  present :: bool
  last_seen :: real
  last_state_change :: real

type_synonym presence = "(int \<times> emp_state) list"

datatype event_type = IN | OUT

definition fresh_state :: emp_state where
  "fresh_state = \<lparr>present = False, last_seen = 0, last_state_change = 0\<rparr>"

text \<open>\<^verbatim>\<open>__init__\<close>: one assignment \<^verbatim>\<open>self.state[emp_id] = {...}\<close> per listed id.\<close>

definition presence_init :: "int list \<Rightarrow> presence" where
  "presence_init employee_ids = foldl (\<lambda>st emp_id. AList.update emp_id fresh_state st) [] employee_ids"

definition add_employee :: "int \<Rightarrow> presence \<Rightarrow> presence" where
  "add_employee emp_id st =
     (if emp_id \<notin> fst ` set st then AList.update emp_id fresh_state st else st)"

text \<open>First loop of \<^verbatim>\<open>update\<close>: \<^verbatim>\<open>last_seen\<close> of every recognized id that is a key.\<close>

fun mark_seen :: "real \<Rightarrow> int list \<Rightarrow> presence \<Rightarrow> presence" where
  "mark_seen now [] st = st"
| "mark_seen now (emp_id # rest) st =
     mark_seen now rest
       (if emp_id \<in> fst ` set st
        then AList.map_entry emp_id (\<lambda>s. s\<lparr>last_seen := now\<rparr>) st
        else st)"

text \<open>The body of the second loop for one item of the dict.\<close>

definition check_employee ::
  "config \<Rightarrow> real \<Rightarrow> int list \<Rightarrow> int \<Rightarrow> emp_state \<Rightarrow> emp_state \<times> (int \<times> event_type) list" where
  "check_employee cfg now recognized_employee_ids emp_id state =
     (if emp_id \<in> set recognized_employee_ids then
        (if \<not> present state then
           (let time_since_change = now - last_state_change state in
            if time_since_change > in_threshold_seconds cfg
            then (state\<lparr>present := True, last_state_change := now\<rparr>, [(emp_id, IN)])
            else (state, []))
         else (state, []))
      else
        (if present state then
           (let time_since_seen = now - last_seen state in
            if time_since_seen > out_threshold_seconds cfg
            then (state\<lparr>present := False, last_state_change := now\<rparr>, [(emp_id, OUT)])
            else (state, []))
         else (state, [])))"

fun check_states ::
  "config \<Rightarrow> real \<Rightarrow> int list \<Rightarrow> presence \<Rightarrow> presence \<times> (int \<times> event_type) list" where
  "check_states cfg now recognized_employee_ids [] = ([], [])"
| "check_states cfg now recognized_employee_ids ((emp_id, state) # rest) =
     (let (state', ev) = check_employee cfg now recognized_employee_ids emp_id state;
          (rest', events) = check_states cfg now recognized_employee_ids rest
      in ((emp_id, state') # rest', ev @ events))"

text \<open>
  \<^verbatim>\<open>PresenceManager.update\<close>. The clock reading \<^verbatim>\<open>now = time.time()\<close> is an argument;
  the result is the new state with the list of events returned.
\<close>

definition presence_update ::
  "config \<Rightarrow> real \<Rightarrow> int list \<Rightarrow> presence \<Rightarrow> presence \<times> (int \<times> event_type) list" where
  "presence_update cfg now recognized_employee_ids st =
     check_states cfg now recognized_employee_ids (mark_seen now recognized_employee_ids st)"

text \<open>A sequence of calls of \<^verbatim>\<open>update\<close>, each with its clock reading and its recognized ids.\<close>

fun presence_run :: "config \<Rightarrow> (real \<times> int list) list \<Rightarrow> presence \<Rightarrow> presence" where
  "presence_run cfg [] st = st"
| "presence_run cfg ((now, ids) # calls) st =
     presence_run cfg calls (fst (presence_update cfg now ids st))"

section \<open>Embedding matching (src/recognition/matching.py)\<close>

type_synonym embedding = "real list"

text \<open>\<^verbatim>\<open>np.dot\<close> of two one-dimensional arrays; shapes that differ raise \<^verbatim>\<open>ValueError\<close>.\<close>

definition dot_product :: "embedding \<Rightarrow> embedding \<Rightarrow> real" where
  "dot_product a b = sum_list (map (\<lambda>(x, y). x * y) (zip a b))"

definition dot :: "embedding \<Rightarrow> embedding \<Rightarrow> py_error + real" where
  "dot a b = (if length a = length b then Inr (dot_product a b) else Inl ValueError)"

text \<open>The list comprehension over \<^verbatim>\<open>known_embeddings\<close>: the first failing product raises.\<close>

fun similarities_of :: "embedding \<Rightarrow> embedding list \<Rightarrow> py_error + real list" where
  "similarities_of emb [] = Inr []"
| "similarities_of emb (known_emb # rest) =
     (case dot emb known_emb of
        Inl err \<Rightarrow> Inl err
      | Inr d \<Rightarrow>
          (case similarities_of emb rest of
             Inl err \<Rightarrow> Inl err
           | Inr ds \<Rightarrow> Inr (d # ds)))"

text \<open>\<^verbatim>\<open>np.argmax\<close>: the index of the first maximal element; an empty input raises.\<close>

fun argmax_from :: "nat \<Rightarrow> real \<Rightarrow> nat \<Rightarrow> real list \<Rightarrow> nat" where
  "argmax_from best_idx best i [] = best_idx"
| "argmax_from best_idx best i (x # xs) =
     (if x > best then argmax_from i x (Suc i) xs
      else argmax_from best_idx best (Suc i) xs)"

definition argmax :: "real list \<Rightarrow> py_error + nat" where
  "argmax xs = (case xs of [] \<Rightarrow> Inl ValueError | x # rest \<Rightarrow> Inr (argmax_from 0 x 1 rest))"

definition match_embedding_to_employee ::
  "embedding \<Rightarrow> embedding list \<Rightarrow> int list \<Rightarrow> config \<Rightarrow> py_error + (int option \<times> real)" where
  "match_embedding_to_employee embedding known_embeddings known_ids cfg =
     (if length known_embeddings = 0 then Inr (None, 0)
      else
        (case similarities_of embedding known_embeddings of
           Inl err \<Rightarrow> Inl err
         | Inr similarities \<Rightarrow>
             (case argmax similarities of
                Inl err \<Rightarrow> Inl err
              | Inr best_idx \<Rightarrow>
                  (let best_similarity = similarities ! best_idx in
                   if best_similarity > insightface_threshold cfg then
                     (if best_idx < length known_ids
                      then Inr (Some (known_ids ! best_idx), best_similarity)
                      else Inl IndexError)
                   else Inr (None, 0)))))"

section \<open>Face tracking (src/recognition/tracker.py)\<close>

type_synonym bbox = "real \<times> real \<times> real \<times> real"

definition compute_iou :: "bbox \<Rightarrow> bbox \<Rightarrow> real" where
  "compute_iou bbox1 bbox2 =
     (case bbox1 of (x1_min, y1_min, x1_max, y1_max) \<Rightarrow>
      case bbox2 of (x2_min, y2_min, x2_max, y2_max) \<Rightarrow>
        (let inter_x_min = max x1_min x2_min;
             inter_y_min = max y1_min y2_min;
             inter_x_max = min x1_max x2_max;
             inter_y_max = min y1_max y2_max;
             inter_area = max 0 (inter_x_max - inter_x_min) * max 0 (inter_y_max - inter_y_min);
             bbox1_area = (x1_max - x1_min) * (y1_max - y1_min);
             bbox2_area = (x2_max - x2_min) * (y2_max - y2_min);
             union_area = bbox1_area + bbox2_area - inter_area
         in if union_area = 0 then 0 else inter_area / union_area))"

text \<open>The metrics dict that \<^verbatim>\<open>is_face_acceptable\<close> returns with an accepted face.\<close>

record quality_metrics =
  height :: real
  width :: real
  blur_score :: real
  brightness :: real

record face_track =
  track_id :: int
  embeddings :: "embedding list"
  quality_scores :: "quality_metrics list"
  last_bbox :: "bbox option"
  last_update_time :: real
  recognized_employee_id :: "int option"
  recognition_confidence :: real

text \<open>
  One detection as \<^verbatim>\<open>FaceTracker.update\<close> sees it: \<^verbatim>\<open>face.bbox\<close>,
  \<^verbatim>\<open>face.normed_embedding\<close>, and what the external collaborators answer for it on the
  current frame: whether the crop \<^verbatim>\<open>frame[y1:y2, x1:x2]\<close> exists and is not empty, and
  the pair that \<^verbatim>\<open>is_face_acceptable\<close> returns (OpenCV decides both).
\<close>

record detection =
  det_bbox :: bbox
  normed_embedding :: embedding
  crop_nonempty :: bool
  acceptable :: bool
  quality :: quality_metrics

text \<open>\<^verbatim>\<open>FaceTrack.__init__\<close>, with the clock reading as an argument.\<close>

definition new_face_track :: "int \<Rightarrow> real \<Rightarrow> face_track" where
  "new_face_track tid now =
     \<lparr>track_id = tid, embeddings = [], quality_scores = [], last_bbox = None,
      last_update_time = now, recognized_employee_id = None, recognition_confidence = 0\<rparr>"

definition add_embedding :: "real \<Rightarrow> embedding \<Rightarrow> quality_metrics \<Rightarrow> bbox \<Rightarrow> face_track \<Rightarrow> face_track" where
  "add_embedding now emb q bb t =
     t\<lparr>embeddings := embeddings t @ [emb], quality_scores := quality_scores t @ [q],
       last_bbox := Some bb, last_update_time := now\<rparr>"

definition is_ready_for_recognition :: "config \<Rightarrow> face_track \<Rightarrow> bool" where
  "is_ready_for_recognition cfg t = (int (length (embeddings t)) \<ge> min_embeddings_per_track cfg)"

text \<open>
  \<^verbatim>\<open>np.mean(embeddings, axis=0)\<close>: the element-wise mean of equally long vectors;
  vectors of different lengths do not form an array and raise.
\<close>

definition mean_axis0 :: "embedding list \<Rightarrow> py_error + embedding" where
  "mean_axis0 es =
     (if list_all (\<lambda>e. length e = length (hd es)) es
      then Inr (map (\<lambda>j. sum_list (map (\<lambda>e. e ! j) es) / real (length es)) [0..<length (hd es)])
      else Inl ValueError)"

definition get_average_embedding :: "face_track \<Rightarrow> py_error + embedding option" where
  "get_average_embedding t =
     (if embeddings t = [] then Inr None
      else (case mean_axis0 (embeddings t) of Inl err \<Rightarrow> Inl err | Inr m \<Rightarrow> Inr (Some m)))"

definition is_alive :: "config \<Rightarrow> real \<Rightarrow> face_track \<Rightarrow> bool" where
  "is_alive cfg now t = (now - last_update_time t < track_max_age_seconds cfg)"

text \<open>Python truthiness of an \<^verbatim>\<open>Optional[int]\<close>: \<^verbatim>\<open>None\<close> and \<^verbatim>\<open>0\<close> are false.\<close>

definition truthy :: "int option \<Rightarrow> bool" where
  "truthy x = (case x of None \<Rightarrow> False | Some n \<Rightarrow> n \<noteq> 0)"

record face_tracker =
  tracks :: "face_track list"
  next_track_id :: int

definition tracker_init :: face_tracker where
  "tracker_init = \<lparr>tracks = [], next_track_id = 1\<rparr>"

text \<open>
  \<^verbatim>\<open>_find_matching_track\<close> returns a reference to an element of \<^verbatim>\<open>self.tracks\<close>; the
  model returns its position in the list.
\<close>

fun find_matching_loop ::
  "config \<Rightarrow> bbox \<Rightarrow> int set \<Rightarrow> face_track list \<Rightarrow> nat \<Rightarrow> nat option \<Rightarrow> real \<Rightarrow> nat option" where
  "find_matching_loop cfg bb matched_track_ids [] i best_track best_iou = best_track"
| "find_matching_loop cfg bb matched_track_ids (track # rest) i best_track best_iou =
     (if track_id track \<in> matched_track_ids
      then find_matching_loop cfg bb matched_track_ids rest (Suc i) best_track best_iou
      else
        (case last_bbox track of
           None \<Rightarrow> find_matching_loop cfg bb matched_track_ids rest (Suc i) best_track best_iou
         | Some lb \<Rightarrow>
             (let iou = compute_iou bb lb in
              if iou > iou_threshold cfg \<and> iou > best_iou
              then find_matching_loop cfg bb matched_track_ids rest (Suc i) (Some i) iou
              else find_matching_loop cfg bb matched_track_ids rest (Suc i) best_track best_iou)))"

definition find_matching_track :: "config \<Rightarrow> bbox \<Rightarrow> int set \<Rightarrow> face_track list \<Rightarrow> nat option" where
  "find_matching_track cfg bb matched_track_ids ts =
     find_matching_loop cfg bb matched_track_ids ts 0 None 0"

text \<open>
  The recognition attempt on the track at position \<open>i\<close>, right after a detection was
  added to it. An exception leaves the tracks as they are at that moment.
\<close>

definition try_recognition ::
  "config \<Rightarrow> embedding list \<Rightarrow> int list \<Rightarrow> nat \<Rightarrow> face_track list \<Rightarrow> face_track list \<times> py_error option" where
  "try_recognition cfg known_embeddings known_ids i ts =
     (let best_track = ts ! i in
      if is_ready_for_recognition cfg best_track \<and> \<not> truthy (recognized_employee_id best_track) then
        (case get_average_embedding best_track of
           Inl err \<Rightarrow> (ts, Some err)
         | Inr None \<Rightarrow> (ts, None)
         | Inr (Some avg_embedding) \<Rightarrow>
             (case match_embedding_to_employee avg_embedding known_embeddings known_ids cfg of
                Inl err \<Rightarrow> (ts, Some err)
              | Inr (emp_id, confidence) \<Rightarrow>
                  if truthy emp_id
                  then (ts[i := best_track\<lparr>recognized_employee_id := emp_id,
                                          recognition_confidence := confidence\<rparr>], None)
                  else (ts, None)))
      else (ts, None))"

text \<open>
  The body of the loop over \<^verbatim>\<open>faces\<close>. The loop state is the tracker with the set
  \<^verbatim>\<open>matched_track_ids\<close>; the second component of the result is the exception, if one
  was raised (the tracker keeps what was written before it).
\<close>

definition process_face ::
  "config \<Rightarrow> real \<Rightarrow> embedding list \<Rightarrow> int list \<Rightarrow> detection
   \<Rightarrow> face_tracker \<times> int set \<Rightarrow> (face_tracker \<times> int set) \<times> py_error option" where
  "process_face cfg now known_embeddings known_ids face st =
     (case st of (tr, matched_track_ids) \<Rightarrow>
      if \<not> crop_nonempty face then (st, None)
      else if \<not> acceptable face then (st, None)
      else
        (case find_matching_track cfg (det_bbox face) matched_track_ids (tracks tr) of
           Some i \<Rightarrow>
             (let best_track = add_embedding now (normed_embedding face) (quality face)
                                 (det_bbox face) (tracks tr ! i);
                  matched' = insert (track_id best_track) matched_track_ids;
                  (ts', err) = try_recognition cfg known_embeddings known_ids i
                                 ((tracks tr)[i := best_track])
              in ((tr\<lparr>tracks := ts'\<rparr>, matched'), err))
         | None \<Rightarrow>
             (let new_track = add_embedding now (normed_embedding face) (quality face)
                                (det_bbox face) (new_face_track (next_track_id tr) now)
              in ((tr\<lparr>tracks := tracks tr @ [new_track],
                       next_track_id := next_track_id tr + 1\<rparr>, matched_track_ids), None))))"

fun faces_loop ::
  "config \<Rightarrow> real \<Rightarrow> embedding list \<Rightarrow> int list \<Rightarrow> detection list
   \<Rightarrow> face_tracker \<times> int set \<Rightarrow> (face_tracker \<times> int set) \<times> py_error option" where
  "faces_loop cfg now known_embeddings known_ids [] st = (st, None)"
| "faces_loop cfg now known_embeddings known_ids (face # rest) st =
     (case process_face cfg now known_embeddings known_ids face st of
        (st', Some err) \<Rightarrow> (st', Some err)
      | (st', None) \<Rightarrow> faces_loop cfg now known_embeddings known_ids rest st')"

text \<open>
  \<^verbatim>\<open>FaceTracker.update\<close>. The clock readings of one call are one argument \<open>now\<close>.
  The result is the tracker after the call with either the exception that escaped or the
  returned list of recognized tracks.
\<close>

definition tracker_update ::
  "config \<Rightarrow> real \<Rightarrow> detection list \<Rightarrow> embedding list \<Rightarrow> int list \<Rightarrow> face_tracker
   \<Rightarrow> face_tracker \<times> (py_error + face_track list)" where
  "tracker_update cfg now faces known_embeddings known_ids tr =
     (let tr1 = tr\<lparr>tracks := filter (is_alive cfg now) (tracks tr)\<rparr>;
          ((tr2, matched_track_ids), err) =
             faces_loop cfg now known_embeddings known_ids faces (tr1, {})
      in (tr2,
          case err of
            Some e \<Rightarrow> Inl e
          | None \<Rightarrow> Inr (filter (\<lambda>t. recognized_employee_id t \<noteq> None) (tracks tr2))))"

text \<open>
  A sequence of calls of \<^verbatim>\<open>update\<close> on one tracker, each with its clock reading, its
  detections and the roster passed to it. The caller in src/video\_loop.py lets an
  exception end the worker, so the run is only about the tracker states.
\<close>

fun tracker_run ::
  "config \<Rightarrow> (real \<times> detection list \<times> embedding list \<times> int list) list \<Rightarrow> face_tracker \<Rightarrow> face_tracker" where
  "tracker_run cfg [] tr = tr"
| "tracker_run cfg ((now, faces, known_embeddings, known_ids) # calls) tr =
     tracker_run cfg calls (fst (tracker_update cfg now faces known_embeddings known_ids tr))"

text \<open>The ids that src/video\_loop.py hands to the presence manager after an update.\<close>

definition recognized_emp_ids :: "face_track list \<Rightarrow> int list" where
  "recognized_emp_ids recognized_tracks =
     List.map_filter recognized_employee_id recognized_tracks"

section \<open>Example data\<close>

text \<open>The default configuration of \<^verbatim>\<open>load_config\<close> (src/config.py).\<close>

definition cfg0 :: config where
  "cfg0 = \<lparr>camera_source = ''0'', insightface_threshold = 0.2, min_embeddings_per_track = 2,
     track_max_age_seconds = 2, iou_threshold = 0.3, in_threshold_seconds = 1,
     out_threshold_seconds = 10\<rparr>"

section \<open>Invariants of the tracker\<close>

text \<open>
  Track ids are handed out from the counter \<^verbatim>\<open>next_track_id\<close>, so in every tracker the
  ids are distinct and below the counter; no track is resolved to employee id \<open>0\<close>.
\<close>

definition tracker_inv :: "face_tracker \<Rightarrow> bool" where
  "tracker_inv tr =
     (distinct (map track_id (tracks tr)) \<and>
      list_all (\<lambda>t. track_id t < next_track_id tr \<and> recognized_employee_id t \<noteq> Some 0) (tracks tr))"

text \<open>
  The relation between a tracker and a later one: every later track with an id that was
  already handed out is the successor of an earlier track of that id, and keeps its identity
  and confidence if that track was resolved.
\<close>

definition keeps_resolved :: "face_tracker \<Rightarrow> face_tracker \<Rightarrow> bool" where
  "keeps_resolved tr tr' =
     (next_track_id tr \<le> next_track_id tr' \<and>
      list_all (\<lambda>t'. track_id t' < next_track_id tr \<longrightarrow>
         list_ex (\<lambda>t. track_id t = track_id t' \<and>
                   (truthy (recognized_employee_id t) \<longrightarrow>
                      recognized_employee_id t' = recognized_employee_id t \<and>
                      recognition_confidence t' = recognition_confidence t)) (tracks tr))
        (tracks tr'))"

text \<open>A detection that passes the crop and the quality check, for the examples.\<close>

definition face0 :: detection where
  "face0 = \<lparr>det_bbox = (0, 0, 10, 10), normed_embedding = [1, 0], crop_nonempty = True,
     acceptable = True, quality = \<lparr>height = 10, width = 10, blur_score = 100, brightness = 100\<rparr>\<rparr>"


section \<open>Camera connection (src/camera.py)\<close>

text \<open>
  What \<^verbatim>\<open>connect_camera\<close> sees of a capture object while it connects: the answer of
  \<^verbatim>\<open>isOpened()\<close> and whether the verification read returns \<^verbatim>\<open>ret\<close> true with
  a frame.
\<close>

record capture =
  is_opened :: bool
  first_read_ok :: bool

text \<open>
  The calls that \<^verbatim>\<open>connect_camera\<close> makes, in order: opening the source in attempt
  \<open>n\<close>, \<^verbatim>\<open>set(CAP_PROP_BUFFERSIZE, 1)\<close>, the verification \<^verbatim>\<open>read()\<close>,
  \<^verbatim>\<open>grab()\<close>, \<^verbatim>\<open>release()\<close> and \<^verbatim>\<open>time.sleep(n)\<close>.
\<close>

datatype cam_event = Open nat | SetBufferSize | Read | Grab | Release | Sleep nat

text \<open>
  The source string. A Python \<^verbatim>\<open>str\<close> is a list of code points; the model has the
  code points up to U+00FF, one \<open>char\<close> each. \<^verbatim>\<open>str.isdigit()\<close> holds of a
  non-empty string of characters with a digit value: in this range the ten decimal digits
  and the superscripts two, three and one (U+00B2, U+00B3, U+00B9).
\<close>

definition decimal_digits :: string where
  "decimal_digits = ''0123456789''"

definition py_isdigit :: "string \<Rightarrow> bool" where
  "py_isdigit s =
     (s \<noteq> [] \<and> list_all (\<lambda>c. c \<in> set (decimal_digits @ [CHR 0xB2, CHR 0xB3, CHR 0xB9])) s)"

text \<open>
  \<^verbatim>\<open>int(s)\<close> of a \<^verbatim>\<open>str\<close>: white space around the number is dropped, a sign may
  lead, and the rest is decimal digits with single underscores between digits; anything else
  raises \<^verbatim>\<open>ValueError\<close> (the result \<open>None\<close>). The limit that newer interpreters
  put on the number of digits is not modelled.
\<close>

definition py_whitespace :: string where
  "py_whitespace =
     [CHR 0x09, CHR 0x0A, CHR 0x0B, CHR 0x0C, CHR 0x0D, CHR 0x1C, CHR 0x1D, CHR 0x1E, CHR 0x1F,
      CHR 0x20, CHR 0x85, CHR 0xA0]"

definition py_strip :: "string \<Rightarrow> string" where
  "py_strip s =
     rev (dropWhile (\<lambda>c. c \<in> set py_whitespace)
            (rev (dropWhile (\<lambda>c. c \<in> set py_whitespace) s)))"

definition digit_value :: "char \<Rightarrow> int" where
  "digit_value c = int (length (takeWhile (\<lambda>d. d \<noteq> c) decimal_digits))"

fun parse_digits :: "int \<Rightarrow> bool \<Rightarrow> string \<Rightarrow> int option" where
  "parse_digits acc after_digit [] = (if after_digit then Some acc else None)"
| "parse_digits acc after_digit (c # cs) =
     (if c \<in> set decimal_digits then parse_digits (10 * acc + digit_value c) True cs
      else if c = CHR ''_'' \<and> after_digit then parse_digits acc False cs
      else None)"

definition py_int :: "string \<Rightarrow> int option" where
  "py_int s =
     (case py_strip s of
        [] \<Rightarrow> None
      | c # cs \<Rightarrow>
          if c = CHR ''-'' then map_option uminus (parse_digits 0 False cs)
          else if c = CHR ''+'' then parse_digits 0 False cs
          else parse_digits 0 False (c # cs))"

text \<open>
  The classification at the head of \<^verbatim>\<open>connect_camera\<close>: the camera type with the
  source handed to the constructor, the index of a local camera or the address of a stream.
  \<^verbatim>\<open>int(camera_source)\<close> of the first branch is outside any handler, so its
  \<^verbatim>\<open>ValueError\<close> leaves the function; the last branch catches it.
\<close>

datatype camera_kind = Local int | Stream string

definition classify_source :: "string \<Rightarrow> py_error + camera_kind" where
  "classify_source source_string =
     (if py_isdigit source_string then
        (case py_int source_string of
           None \<Rightarrow> Inl ValueError
         | Some camera_index \<Rightarrow> Inr (Local camera_index))
      else if prefix ''rtsp://'' source_string \<or> prefix ''http://'' source_string then
        Inr (Stream source_string)
      else
        (case py_int source_string of
           Some camera_index \<Rightarrow> Inr (Local camera_index)
         | None \<Rightarrow> Inr (Stream source_string)))"

text \<open>
  The loop \<^verbatim>\<open>for attempt in range(max_retries)\<close> over the list of attempt numbers left.
  The environment is \<open>open_source\<close>: the object that opening the source yields in each
  attempt (\<^verbatim>\<open>cv2.VideoCapture(source)\<close> for a local camera,
  \<^verbatim>\<open>_open_stream_capture(source)\<close>, which may return \<^verbatim>\<open>None\<close>, for a stream).
  \<open>rtsp\<close> is \<^verbatim>\<open>camera_source.startswith('rtsp://')\<close>. The result is the list of
  calls made and either the exception raised after the loop or the capture returned.
\<close>

fun connect_attempts ::
  "(camera_kind \<Rightarrow> nat \<Rightarrow> capture option) \<Rightarrow> camera_kind \<Rightarrow> bool \<Rightarrow> int \<Rightarrow> nat list
   \<Rightarrow> cam_event list \<times> (py_error + capture)" where
  "connect_attempts open_source source rtsp max_retries [] = ([], Inl RuntimeError)"
| "connect_attempts open_source source rtsp max_retries (attempt # rest) =
     (let video_capture = open_source source attempt;
          opening = Open attempt #
            (case source of
               Local camera_index \<Rightarrow> []
             | Stream url \<Rightarrow> if video_capture \<noteq> None \<and> rtsp then [SetBufferSize] else []);
          backoff = (if int attempt < max_retries - 1 then [Sleep (2 ^ attempt)] else []);
          (later, result) = connect_attempts open_source source rtsp max_retries rest
      in case video_capture of
           None \<Rightarrow> (opening @ backoff @ later, result)
         | Some cap \<Rightarrow>
             if is_opened cap then
               (if first_read_ok cap
                then (opening @ [Read] @ (if rtsp then replicate 5 Grab else []), Inr cap)
                else (opening @ [Read, Release] @ backoff @ later, result))
             else (opening @ backoff @ later, result))"

text \<open>
  \<^verbatim>\<open>connect_camera\<close>: an exception of the classification leaves the function before
  the first attempt.
\<close>

definition connect_camera ::
  "(camera_kind \<Rightarrow> nat \<Rightarrow> capture option) \<Rightarrow> config \<Rightarrow> int
   \<Rightarrow> cam_event list \<times> (py_error + capture)" where
  "connect_camera open_source cfg max_retries =
     (case classify_source (camera_source cfg) of
        Inl err \<Rightarrow> ([], Inl err)
      | Inr source \<Rightarrow>
          connect_attempts open_source source (prefix ''rtsp://'' (camera_source cfg))
            max_retries [0..<nat max_retries])"

text \<open>The attempts and the waits of a list of calls, each in order.\<close>

fun attempts_of :: "cam_event list \<Rightarrow> nat list" where
  "attempts_of [] = []"
| "attempts_of (Open n # es) = n # attempts_of es"
| "attempts_of (e # es) = attempts_of es"

fun waits_of :: "cam_event list \<Rightarrow> nat list" where
  "waits_of [] = []"
| "waits_of (Sleep n # es) = n # waits_of es"
| "waits_of (e # es) = waits_of es"

fun attempts_and_waits :: "cam_event list \<Rightarrow> cam_event list" where
  "attempts_and_waits [] = []"
| "attempts_and_waits (Open n # es) = Open n # attempts_and_waits es"
| "attempts_and_waits (Sleep n # es) = Sleep n # attempts_and_waits es"
| "attempts_and_waits (e # es) = attempts_and_waits es"

section \<open>The MJPEG reader (src/camera.py, class MJPEGStreamCapture)\<close>

text \<open>A \<^verbatim>\<open>bytes\<close> object is a list of 8-bit characters.\<close>

type_synonym bytes = "char list"

definition soi :: bytes where
  "soi = [CHR 0xFF, CHR 0xD8]"

definition eoi :: bytes where
  "eoi = [CHR 0xFF, CHR 0xD9]"

text \<open>\<^verbatim>\<open>bytes.find(sub)\<close>: the lowest index where \<open>sub\<close> occurs, or \<open>-1\<close>.\<close>

fun find_at :: "bytes \<Rightarrow> bytes \<Rightarrow> nat \<Rightarrow> int" where
  "find_at sub [] i = (if sub = [] then int i else - 1)"
| "find_at sub (b # bs) i = (if prefix sub (b # bs) then int i else find_at sub bs (Suc i))"

definition bytes_find :: "bytes \<Rightarrow> bytes \<Rightarrow> int" where
  "bytes_find buf sub = find_at sub buf 0"

text \<open>
  What \<^verbatim>\<open>next(self._stream, None)\<close> can do: deliver a chunk, raise (a network error),
  or find the iterator exhausted. The stream is the function from the number of items
  already taken to the next outcome, so a stream that never ends is covered.
\<close>

datatype stream_item = Chunk bytes | StreamRaises | StreamEnd

record mjpeg_capture =
  mj_opened :: bool
  mj_stream :: "(nat \<Rightarrow> stream_item) option"
  mj_pos :: nat
  mj_buffer :: bytes

definition buffer_limit :: nat where
  "buffer_limit = 10 * 1024 * 1024"

text \<open>
  One iteration of the \<^verbatim>\<open>while True\<close> loop of \<^verbatim>\<open>read\<close>, with the handler
  \<^verbatim>\<open>except Exception\<close> around it. \<open>imdecode\<close> is \<^verbatim>\<open>cv2.imdecode\<close>: it returns an
  image, returns \<^verbatim>\<open>None\<close>, or raises. The result is the new state and the value that
  \<^verbatim>\<open>read\<close> returns in this iteration, if it returns. A generator that raised is
  finished, so the stream is exhausted from then on.
\<close>

definition read_step ::
  "(bytes \<Rightarrow> py_error + 'f option) \<Rightarrow> (nat \<Rightarrow> stream_item) \<Rightarrow> mjpeg_capture
   \<Rightarrow> mjpeg_capture \<times> (bool \<times> 'f option) option" where
  "read_step imdecode stream st =
     (case stream (mj_pos st) of
        StreamEnd \<Rightarrow> (st, Some (False, None))
      | StreamRaises \<Rightarrow> (st\<lparr>mj_stream := Some (\<lambda>_. StreamEnd)\<rparr>, Some (False, None))
      | Chunk chunk \<Rightarrow>
          (let buf = mj_buffer st @ chunk;
               st1 = st\<lparr>mj_pos := Suc (mj_pos st)\<rparr>;
               start = bytes_find buf soi;
               end = bytes_find buf eoi;
               overflow = (\<lambda>b. if length b > buffer_limit then [] else b)
           in if start \<noteq> - 1 \<and> end \<noteq> - 1 \<and> end > start then
                (let jpg = take (nat (end + 2) - nat start) (drop (nat start) buf);
                     buf' = drop (nat (end + 2)) buf
                 in case imdecode jpg of
                      Inl err \<Rightarrow> (st1\<lparr>mj_buffer := buf'\<rparr>, Some (False, None))
                    | Inr (Some frame) \<Rightarrow> (st1\<lparr>mj_buffer := buf'\<rparr>, Some (True, Some frame))
                    | Inr None \<Rightarrow> (st1\<lparr>mj_buffer := overflow buf'\<rparr>, None))
              else (st1\<lparr>mj_buffer := overflow buf\<rparr>, None)))"

partial_function (option) read_loop ::
  "(bytes \<Rightarrow> py_error + 'f option) \<Rightarrow> mjpeg_capture \<Rightarrow> ((bool \<times> 'f option) \<times> mjpeg_capture) option" where
  "read_loop imdecode st =
     (case mj_stream st of
        None \<Rightarrow> Some ((False, None), st)
      | Some stream \<Rightarrow>
          (case read_step imdecode stream st of
             (st', Some result) \<Rightarrow> Some (result, st')
           | (st', None) \<Rightarrow> read_loop imdecode st'))"

text \<open>
  \<^verbatim>\<open>MJPEGStreamCapture.read\<close>: \<open>None\<close> is a call that does not return (a stream that
  goes on for ever without a frame that decodes).
\<close>

definition mjpeg_read ::
  "(bytes \<Rightarrow> py_error + 'f option) \<Rightarrow> mjpeg_capture \<Rightarrow> ((bool \<times> 'f option) \<times> mjpeg_capture) option" where
  "mjpeg_read imdecode st =
     (if \<not> mj_opened st \<or> mj_stream st = None then Some ((False, None), st)
      else read_loop imdecode st)"

text \<open>
  An attempt fails when opening yields no object, the object is not opened, or the
  verification read returns no frame.
\<close>

definition always_fails :: "(nat \<Rightarrow> capture option) \<Rightarrow> nat \<Rightarrow> bool" where
  "always_fails open_source attempt =
     (case open_source attempt of None \<Rightarrow> True
      | Some cap \<Rightarrow> \<not> (is_opened cap \<and> first_read_ok cap))"

section \<open>The multi-camera manager (src/multi\_camera\_manager.py)\<close>

text \<open>A camera dictionary of the backend's roster.\<close>

record camera =
  cam_id :: int
  cam_name :: string
  cam_stream_url :: string

text \<open>
  A \<^verbatim>\<open>CameraThread\<close>: \<open>ct_alive\<close> is what \<^verbatim>\<open>is_alive()\<close> answers (the thread
  exists and runs), \<open>ct_stop_flag\<close> whether the stop event is set.
\<close>

record camera_thread =
  ct_camera_id :: int
  ct_camera_data :: camera
  ct_alive :: bool
  ct_stop_flag :: bool

text \<open>
  The dict \<^verbatim>\<open>camera_threads\<close> is an association list with distinct keys. What the
  manager does to workers is recorded as a list of events: \<open>Started\<close> for a
  \<^verbatim>\<open>CameraThread\<close> created and started, \<open>Stopped\<close> for a call of
  \<^verbatim>\<open>CameraThread.stop\<close>. \<^verbatim>\<open>CameraThread.start\<close> is taken to succeed (it
  loads the configuration and starts the thread), and \<^verbatim>\<open>stop\<close> to return (it waits
  for the thread at most five seconds).
\<close>

type_synonym registry = "(int \<times> camera_thread) list"

datatype mgr_event = Started int | Stopped int

text \<open>
  \<^verbatim>\<open>get_company_cameras\<close>: the argument is the outcome of the request and of decoding
  its body, an exception or the list of cameras; both handlers return the empty list.
\<close>

definition get_company_cameras :: "py_error + camera list \<Rightarrow> camera list" where
  "get_company_cameras response = (case response of Inl err \<Rightarrow> [] | Inr cameras \<Rightarrow> cameras)"

definition new_camera_thread :: "camera \<Rightarrow> camera_thread" where
  "new_camera_thread cam =
     \<lparr>ct_camera_id = cam_id cam, ct_camera_data = cam, ct_alive = True, ct_stop_flag = False\<rparr>"

definition start_camera :: "camera \<Rightarrow> registry \<Rightarrow> registry \<times> mgr_event list" where
  "start_camera cam reg =
     (let camera_id = cam_id cam in
      case map_of reg camera_id of
        Some camera_thread \<Rightarrow>
          if ct_alive camera_thread then (reg, [])
          else (AList.update camera_id (new_camera_thread cam) (AList.delete camera_id reg),
                [Started camera_id])
      | None \<Rightarrow> (AList.update camera_id (new_camera_thread cam) reg, [Started camera_id]))"

definition stop_camera :: "int \<Rightarrow> registry \<Rightarrow> registry \<times> mgr_event list" where
  "stop_camera camera_id reg =
     (if camera_id \<notin> fst ` set reg then (reg, [])
      else (AList.delete camera_id reg, [Stopped camera_id]))"

fun stop_cameras :: "int list \<Rightarrow> registry \<Rightarrow> registry \<times> mgr_event list" where
  "stop_cameras [] reg = (reg, [])"
| "stop_cameras (camera_id # rest) reg =
     (let (reg1, ev) = stop_camera camera_id reg;
          (reg2, events) = stop_cameras rest reg1
      in (reg2, ev @ events))"

fun start_cameras :: "camera list \<Rightarrow> registry \<Rightarrow> registry \<times> mgr_event list" where
  "start_cameras [] reg = (reg, [])"
| "start_cameras (cam # rest) reg =
     (let (reg1, ev) = start_camera cam reg;
          (reg2, events) = start_cameras rest reg1
      in (reg2, ev @ events))"

text \<open>
  \<^verbatim>\<open>sync_cameras\<close>. The loop over the set \<^verbatim>\<open>running_ids - current_ids\<close> runs in the
  order of the registry (Python leaves the order of a set open; the stops do not depend on
  one another).
\<close>

definition sync_cameras :: "py_error + camera list \<Rightarrow> registry \<Rightarrow> registry \<times> mgr_event list" where
  "sync_cameras response reg =
     (let current_cameras = get_company_cameras response;
          current_ids = set (map cam_id current_cameras);
          running_ids = map fst reg;
          (reg1, stopped) = stop_cameras (filter (\<lambda>camera_id. camera_id \<notin> current_ids) running_ids) reg;
          (reg2, started) = start_cameras current_cameras reg1
      in (reg2, stopped @ started))"

text \<open>Whether the registry holds a worker for a camera id whose thread is alive.\<close>

definition worker_alive :: "registry \<Rightarrow> int \<Rightarrow> bool" where
  "worker_alive reg k = (case map_of reg k of None \<Rightarrow> False | Some w \<Rightarrow> ct_alive w)"

text \<open>Two cameras of a roster and a registry with live workers for the cameras 1 and 2.\<close>

definition cam2 :: camera where
  "cam2 = \<lparr>cam_id = 2, cam_name = ''door'', cam_stream_url = ''rtsp://host/2''\<rparr>"

definition cam3 :: camera where
  "cam3 = \<lparr>cam_id = 3, cam_name = ''hall'', cam_stream_url = ''rtsp://host/3''\<rparr>"

definition reg12 :: registry where
  "reg12 = [(1, \<lparr>ct_camera_id = 1,
                 ct_camera_data = \<lparr>cam_id = 1, cam_name = ''yard'', cam_stream_url = ''rtsp://host/1''\<rparr>,
                 ct_alive = True, ct_stop_flag = False\<rparr>),
            (2, new_camera_thread cam2)]"

text \<open>A number of calls of \<^verbatim>\<open>read\<close> on one capture, with the values they return.\<close>

fun mjpeg_reads ::
  "(bytes \<Rightarrow> py_error + 'f option) \<Rightarrow> nat \<Rightarrow> mjpeg_capture
   \<Rightarrow> ((bool \<times> 'f option) list \<times> mjpeg_capture) option" where
  "mjpeg_reads imdecode 0 st = Some ([], st)"
| "mjpeg_reads imdecode (Suc n) st =
     (case mjpeg_read imdecode st of
        None \<Rightarrow> None
      | Some (r, st1) \<Rightarrow>
          (case mjpeg_reads imdecode n st1 of
             None \<Rightarrow> None
           | Some (rs, st2) \<Rightarrow> Some (r # rs, st2)))"

text \<open>
  A stream for the examples. \<open>tiny_frame\<close> is a complete JPEG image of 331 bytes (a
  baseline JFIF file of a grey square of 8 by 8 pixels; the start marker is at its head and
  the only end marker at its end). Every chunk of \<open>tiny_stream\<close> carries two of them,
  662 bytes. \<open>decode_frame\<close> is \<^verbatim>\<open>cv2.imdecode\<close> as far as the examples need it:
  it decodes \<open>tiny_frame\<close>, the only input it gets there, to an image written as its
  size. \<open>fresh_capture\<close> is the state after \<^verbatim>\<open>__init__\<close> got status 200.
\<close>

definition tiny_frame :: bytes where
  "tiny_frame =
     [
      CHR 0xFF, CHR 0xD8, CHR 0xFF, CHR 0xE0, CHR 0x00, CHR 0x10, CHR 0x4A, CHR 0x46,
      CHR 0x49, CHR 0x46, CHR 0x00, CHR 0x01, CHR 0x02, CHR 0x00, CHR 0x00, CHR 0x01,
      CHR 0x00, CHR 0x01, CHR 0x00, CHR 0x00, CHR 0xFF, CHR 0xDB, CHR 0x00, CHR 0x43,
      CHR 0x00, CHR 0x10, CHR 0x0B, CHR 0x0C, CHR 0x0E, CHR 0x0C, CHR 0x0A, CHR 0x10,
      CHR 0x0E, CHR 0x0D, CHR 0x0E, CHR 0x12, CHR 0x11, CHR 0x10, CHR 0x13, CHR 0x18,
      CHR 0x28, CHR 0x1A, CHR 0x18, CHR 0x16, CHR 0x16, CHR 0x18, CHR 0x31, CHR 0x23,
      CHR 0x25, CHR 0x1D, CHR 0x28, CHR 0x3A, CHR 0x33, CHR 0x3D, CHR 0x3C, CHR 0x39,
      CHR 0x33, CHR 0x38, CHR 0x37, CHR 0x40, CHR 0x48, CHR 0x5C, CHR 0x4E, CHR 0x40,
      CHR 0x44, CHR 0x57, CHR 0x45, CHR 0x37, CHR 0x38, CHR 0x50, CHR 0x6D, CHR 0x51,
      CHR 0x57, CHR 0x5F, CHR 0x62, CHR 0x67, CHR 0x68, CHR 0x67, CHR 0x3E, CHR 0x4D,
      CHR 0x71, CHR 0x79, CHR 0x70, CHR 0x64, CHR 0x78, CHR 0x5C, CHR 0x65, CHR 0x67,
      CHR 0x63, CHR 0xFF, CHR 0xC0, CHR 0x00, CHR 0x0B, CHR 0x08, CHR 0x00, CHR 0x08,
      CHR 0x00, CHR 0x08, CHR 0x01, CHR 0x01, CHR 0x11, CHR 0x00, CHR 0xFF, CHR 0xC4,
      CHR 0x00, CHR 0x1F, CHR 0x00, CHR 0x00, CHR 0x01, CHR 0x05, CHR 0x01, CHR 0x01,
      CHR 0x01, CHR 0x01, CHR 0x01, CHR 0x01, CHR 0x00, CHR 0x00, CHR 0x00, CHR 0x00,
      CHR 0x00, CHR 0x00, CHR 0x00, CHR 0x00, CHR 0x01, CHR 0x02, CHR 0x03, CHR 0x04,
      CHR 0x05, CHR 0x06, CHR 0x07, CHR 0x08, CHR 0x09, CHR 0x0A, CHR 0x0B, CHR 0xFF,
      CHR 0xC4, CHR 0x00, CHR 0xB5, CHR 0x10, CHR 0x00, CHR 0x02, CHR 0x01, CHR 0x03,
      CHR 0x03, CHR 0x02, CHR 0x04, CHR 0x03, CHR 0x05, CHR 0x05, CHR 0x04, CHR 0x04,
      CHR 0x00, CHR 0x00, CHR 0x01, CHR 0x7D, CHR 0x01, CHR 0x02, CHR 0x03, CHR 0x00,
      CHR 0x04, CHR 0x11, CHR 0x05, CHR 0x12, CHR 0x21, CHR 0x31, CHR 0x41, CHR 0x06,
      CHR 0x13, CHR 0x51, CHR 0x61, CHR 0x07, CHR 0x22, CHR 0x71, CHR 0x14, CHR 0x32,
      CHR 0x81, CHR 0x91, CHR 0xA1, CHR 0x08, CHR 0x23, CHR 0x42, CHR 0xB1, CHR 0xC1,
      CHR 0x15, CHR 0x52, CHR 0xD1, CHR 0xF0, CHR 0x24, CHR 0x33, CHR 0x62, CHR 0x72,
      CHR 0x82, CHR 0x09, CHR 0x0A, CHR 0x16, CHR 0x17, CHR 0x18, CHR 0x19, CHR 0x1A,
      CHR 0x25, CHR 0x26, CHR 0x27, CHR 0x28, CHR 0x29, CHR 0x2A, CHR 0x34, CHR 0x35,
      CHR 0x36, CHR 0x37, CHR 0x38, CHR 0x39, CHR 0x3A, CHR 0x43, CHR 0x44, CHR 0x45,
      CHR 0x46, CHR 0x47, CHR 0x48, CHR 0x49, CHR 0x4A, CHR 0x53, CHR 0x54, CHR 0x55,
      CHR 0x56, CHR 0x57, CHR 0x58, CHR 0x59, CHR 0x5A, CHR 0x63, CHR 0x64, CHR 0x65,
      CHR 0x66, CHR 0x67, CHR 0x68, CHR 0x69, CHR 0x6A, CHR 0x73, CHR 0x74, CHR 0x75,
      CHR 0x76, CHR 0x77, CHR 0x78, CHR 0x79, CHR 0x7A, CHR 0x83, CHR 0x84, CHR 0x85,
      CHR 0x86, CHR 0x87, CHR 0x88, CHR 0x89, CHR 0x8A, CHR 0x92, CHR 0x93, CHR 0x94,
      CHR 0x95, CHR 0x96, CHR 0x97, CHR 0x98, CHR 0x99, CHR 0x9A, CHR 0xA2, CHR 0xA3,
      CHR 0xA4, CHR 0xA5, CHR 0xA6, CHR 0xA7, CHR 0xA8, CHR 0xA9, CHR 0xAA, CHR 0xB2,
      CHR 0xB3, CHR 0xB4, CHR 0xB5, CHR 0xB6, CHR 0xB7, CHR 0xB8, CHR 0xB9, CHR 0xBA,
      CHR 0xC2, CHR 0xC3, CHR 0xC4, CHR 0xC5, CHR 0xC6, CHR 0xC7, CHR 0xC8, CHR 0xC9,
      CHR 0xCA, CHR 0xD2, CHR 0xD3, CHR 0xD4, CHR 0xD5, CHR 0xD6, CHR 0xD7, CHR 0xD8,
      CHR 0xD9, CHR 0xDA, CHR 0xE1, CHR 0xE2, CHR 0xE3, CHR 0xE4, CHR 0xE5, CHR 0xE6,
      CHR 0xE7, CHR 0xE8, CHR 0xE9, CHR 0xEA, CHR 0xF1, CHR 0xF2, CHR 0xF3, CHR 0xF4,
      CHR 0xF5, CHR 0xF6, CHR 0xF7, CHR 0xF8, CHR 0xF9, CHR 0xFA, CHR 0xFF, CHR 0xDA,
      CHR 0x00, CHR 0x08, CHR 0x01, CHR 0x01, CHR 0x00, CHR 0x00, CHR 0x3F, CHR 0x00,
      CHR 0x2B, CHR 0xFF, CHR 0xD9]"

definition tiny_stream :: "nat \<Rightarrow> stream_item" where
  "tiny_stream = (\<lambda>_. Chunk (tiny_frame @ tiny_frame))"

definition decode_frame :: "bytes \<Rightarrow> py_error + (nat \<times> nat) option" where
  "decode_frame jpg = (if jpg = tiny_frame then Inr (Some (8, 8)) else Inr None)"

definition fresh_capture :: "(nat \<Rightarrow> stream_item) \<Rightarrow> mjpeg_capture" where
  "fresh_capture stream = \<lparr>mj_opened = True, mj_stream = Some stream, mj_pos = 0, mj_buffer = []\<rparr>"

text \<open>A stream that delivers one byte without a marker and then breaks.\<close>

definition broken_stream :: "nat \<Rightarrow> stream_item" where
  "broken_stream n = (if n = 0 then Chunk [CHR 0x00] else StreamRaises)"

section \<open>Properties of presence management\<close>

lemma map_entry_keys: "map fst (AList.map_entry k f st) = map fst st"
  by (induction st) auto

lemma mark_seen_keys: "map fst (mark_seen now ids st) = map fst st"
  by (induction ids arbitrary: st) (simp_all add: map_entry_keys)

lemma check_states_Cons:
  "check_states cfg now ids ((k, v) # st) =
     ((k, fst (check_employee cfg now ids k v)) # fst (check_states cfg now ids st),
      snd (check_employee cfg now ids k v) @ snd (check_states cfg now ids st))"
  by (simp split: prod.splits)

lemma map_of_map_entry_seen:
  "map_of (AList.map_entry k f st) e =
     (if e = k then map_option f (map_of st e) else map_of st e)"
  by (induction st) auto

lemma map_of_mark_seen:
  "map_of (mark_seen now ids st) e =
     (if e \<in> set ids then map_option (\<lambda>s. s\<lparr>last_seen := now\<rparr>) (map_of st e) else map_of st e)"
proof (induction ids arbitrary: st)
  case Nil
  then show ?case by simp
next
  case (Cons a ids)
  have dom: "(a \<in> fst ` set st) = (map_of st a \<noteq> None)"
    by (simp add: map_of_eq_None_iff)
  show ?case
    by (cases "map_of st e")
       (auto simp: Cons.IH map_of_map_entry_seen dom option.map_comp comp_def)
qed

lemma check_states_keys: "map fst (fst (check_states cfg now ids st)) = map fst st"
  by (induction st) (auto simp: check_states_Cons simp del: check_states.simps(2))

lemma check_states_map_of:
  "distinct (map fst st) \<Longrightarrow> map_of st e = Some s \<Longrightarrow>
   map_of (fst (check_states cfg now ids st)) e = Some (fst (check_employee cfg now ids e s))"
proof (induction st)
  case Nil
  then show ?case by simp
next
  case (Cons p st)
  obtain k v where p: "p = (k, v)" by (cases p)
  show ?case
  proof (cases "e = k")
    case True
    with Cons.prems p show ?thesis
      by (simp add: check_states_Cons del: check_states.simps(2))
  next
    case False
    with Cons p show ?thesis
      by (simp add: check_states_Cons del: check_states.simps(2))
  qed
qed

lemma check_states_none:
  "map_of st e = None \<Longrightarrow> map_of (fst (check_states cfg now ids st)) e = None"
  by (metis check_states_keys map_of_eq_None_iff set_map)

lemma check_employee_events:
  "set (snd (check_employee cfg now ids k v)) \<subseteq> {(k, IN), (k, OUT)}"
  by (auto simp: check_employee_def Let_def)

lemma check_states_events_other:
  "e \<notin> fst ` set st \<Longrightarrow> (e, ty) \<notin> set (snd (check_states cfg now ids st))"
proof (induction st)
  case Nil
  then show ?case by simp
next
  case (Cons p st)
  obtain k v where p: "p = (k, v)" by (cases p)
  from Cons.prems p have ek: "e \<noteq> k" and rest: "e \<notin> fst ` set st" by auto
  have "(e, ty) \<notin> set (snd (check_employee cfg now ids k v))"
    using check_employee_events [of cfg now ids k v] ek by auto
  with Cons.IH [OF rest] p show ?case
    by (simp add: check_states_Cons del: check_states.simps(2))
qed

lemma check_states_count:
  "distinct (map fst st) \<Longrightarrow> map_of st e = Some s \<Longrightarrow>
   count_list (snd (check_states cfg now ids st)) (e, ty) =
   count_list (snd (check_employee cfg now ids e s)) (e, ty)"
proof (induction st)
  case Nil
  then show ?case by simp
next
  case (Cons p st)
  obtain k v where p: "p = (k, v)" by (cases p)
  show ?case
  proof (cases "e = k")
    case True
    with Cons.prems p have sv: "s = v" and fresh: "e \<notin> fst ` set st" by auto
    have "count_list (snd (check_states cfg now ids st)) (e, ty) = 0"
      using check_states_events_other [OF fresh] by simp
    with True sv p show ?thesis
      by (simp add: check_states_Cons del: check_states.simps(2))
  next
    case False
    have "(e, ty) \<notin> set (snd (check_employee cfg now ids k v))"
      using check_employee_events [of cfg now ids k v] False by auto
    then have "count_list (snd (check_employee cfg now ids k v)) (e, ty) = 0"
      by simp
    with False Cons p show ?thesis
      by (simp add: check_states_Cons del: check_states.simps(2))
  qed
qed

lemma presence_update_lookup:
  assumes "distinct (map fst st)" and "map_of st e = Some s"
  shows "map_of (fst (presence_update cfg now D st)) e =
           Some (fst (check_employee cfg now D e (if e \<in> set D then s\<lparr>last_seen := now\<rparr> else s)))"
    and "count_list (snd (presence_update cfg now D st)) (e, ty) =
           count_list (snd (check_employee cfg now D e (if e \<in> set D then s\<lparr>last_seen := now\<rparr> else s))) (e, ty)"
proof -
  let ?st1 = "mark_seen now D st"
  let ?s1 = "if e \<in> set D then s\<lparr>last_seen := now\<rparr> else s"
  have d: "distinct (map fst ?st1)" using assms(1) by (simp add: mark_seen_keys)
  have m: "map_of ?st1 e = Some ?s1" using assms(2) by (simp add: map_of_mark_seen)
  show "map_of (fst (presence_update cfg now D st)) e = Some (fst (check_employee cfg now D e ?s1))"
    unfolding presence_update_def by (rule check_states_map_of [OF d m])
  show "count_list (snd (presence_update cfg now D st)) (e, ty) =
           count_list (snd (check_employee cfg now D e ?s1)) (e, ty)"
    unfolding presence_update_def by (rule check_states_count [OF d m])
qed

lemma presence_update_keys: "map fst (fst (presence_update cfg now D st)) = map fst st"
  by (simp add: presence_update_def check_states_keys mark_seen_keys)

lemma presence_update_absent:
  "map_of st e = None \<Longrightarrow> map_of (fst (presence_update cfg now D st)) e = None"
  by (metis presence_update_keys map_of_eq_None_iff set_map)

lemma check_employee_last_seen: "last_seen (fst (check_employee cfg now D e s)) = last_seen s"
  by (simp add: check_employee_def Let_def)

lemma presence_update_seen:
  assumes "distinct (map fst st)" and "map_of st e = Some s"
  shows "\<exists>s'. map_of (fst (presence_update cfg now D st)) e = Some s' \<and>
               last_seen s' = (if e \<in> set D then now else last_seen s)"
  using presence_update_lookup(1) [OF assms, of cfg now D]
  by (simp add: check_employee_last_seen)

lemma presence_run_last_seen:
  "distinct (map fst st) \<Longrightarrow> map_of st e = Some s \<Longrightarrow> sorted (map fst calls) \<Longrightarrow>
   \<forall>c \<in> set calls. last_seen s \<le> fst c \<Longrightarrow>
   \<exists>s'. map_of (presence_run cfg calls st) e = Some s' \<and> last_seen s \<le> last_seen s'"
proof (induction calls arbitrary: st s)
  case Nil
  then show ?case by simp
next
  case (Cons c calls)
  obtain now D where c: "c = (now, D)" by (cases c)
  let ?st1 = "fst (presence_update cfg now D st)"
  from presence_update_seen [OF Cons.prems(1,2), of cfg now D]
  obtain s1 where s1: "map_of ?st1 e = Some s1"
    and ls1: "last_seen s1 = (if e \<in> set D then now else last_seen s)" by blast
  have d1: "distinct (map fst ?st1)" using Cons.prems(1) by (simp add: presence_update_keys)
  have le1: "last_seen s \<le> last_seen s1" using ls1 Cons.prems(4) c by auto
  have bound: "\<forall>c' \<in> set calls. last_seen s1 \<le> fst c'"
    using ls1 Cons.prems(3,4) c by auto
  have srt: "sorted (map fst calls)" using Cons.prems(3) by simp
  from Cons.IH [OF d1 s1 srt bound]
  obtain s' where "map_of (presence_run cfg calls ?st1) e = Some s'" "last_seen s1 \<le> last_seen s'"
    by blast
  with le1 c show ?case by auto
qed

text \<open>
  Claim C4, as the code has it: \<^verbatim>\<open>update\<close> writes \<^verbatim>\<open>last_seen = now\<close> for every
  detected identity that is a key of the state, whatever its \<^verbatim>\<open>present\<close> flag, and for
  no other: the guard \<^verbatim>\<open>if emp_id in self.state\<close> skips a detected identity that was
  never registered, which gets no state at all, and an identity that is not detected keeps its
  \<^verbatim>\<open>last_seen\<close>. Over a sequence of calls whose clock readings do not decrease and are
  not below the stored value, \<^verbatim>\<open>last_seen\<close> of a registered identity never decreases.
\<close>

theorem presence_update_last_seen:
  assumes "distinct (map fst st)"
  shows "(map_of st e = None \<longrightarrow> map_of (fst (presence_update cfg now D st)) e = None) \<and>
         (\<forall>s. map_of st e = Some s \<longrightarrow>
            (\<exists>s'. map_of (fst (presence_update cfg now D st)) e = Some s' \<and>
                  last_seen s' = (if e \<in> set D then now else last_seen s))) \<and>
         (\<forall>s. map_of st e = Some s \<and> sorted (map fst calls) \<and>
              (\<forall>c \<in> set calls. last_seen s \<le> fst c) \<longrightarrow>
            (\<exists>s'. map_of (presence_run cfg calls st) e = Some s' \<and> last_seen s \<le> last_seen s'))"
  using presence_update_absent [of st e cfg now D] presence_update_seen [OF assms, of e _ cfg now D]
    presence_run_last_seen [OF assms, of e _ calls cfg]
  by blast

theorem presence_update_last_seen_witness:
  "map_of (fst (presence_update cfg0 5 [7, 8] [(8, fresh_state)])) 7 = None \<and>
   (\<exists>s'. map_of (fst (presence_update cfg0 5 [7, 8] [(8, fresh_state)])) 8 = Some s' \<and> last_seen s' = 5) \<and>
   (\<exists>s'. map_of (presence_run cfg0 [(5, [8]), (6, []), (7, [8])] [(8, fresh_state)]) 8 = Some s' \<and> 0 \<le> last_seen s')"
  using presence_update_last_seen [of "[(8, fresh_state)]" 7 cfg0 5 "[7, 8]" "[]"]
    presence_update_last_seen [of "[(8, fresh_state)]" 8 cfg0 5 "[7, 8]" "[(5, [8]), (6, []), (7, [8])]"]
  by (simp add: fresh_state_def)

text \<open>
  Claim C4 as stated fails for a detected identity that is not registered: with only
  employee 8 registered and 7 and 8 detected, identity 7 has no state after the call, so no
  \<^verbatim>\<open>last_seen\<close> was set for it.
\<close>

theorem presence_update_unregistered_counterexample:
  "map_of (fst (presence_update cfg0 5 [7, 8] (presence_init [8]))) 7 = None \<and>
   map_of (presence_init [8]) 7 = None"
  by (simp add: presence_init_def presence_update_def fresh_state_def check_employee_def)

text \<open>
  Claim C2: for a tracked identity \<open>e\<close> with state \<open>s\<close> before the call of
  \<^verbatim>\<open>update\<close> with the detected identities \<open>D\<close>: if \<open>e\<close> is detected, not present and
  \<open>now - last_state_change > in_threshold_seconds\<close>, it becomes present,
  \<^verbatim>\<open>last_state_change\<close> becomes \<open>now\<close> and exactly one IN event (and no OUT event)
  for \<open>e\<close> is returned; if \<open>e\<close> is not detected, present and
  \<open>now - last_seen > out_threshold_seconds\<close>, it becomes not present,
  \<^verbatim>\<open>last_state_change\<close> becomes \<open>now\<close> and exactly one OUT event (and no IN event)
  is returned; in every other case no event for \<open>e\<close> is returned and its flag and
  \<^verbatim>\<open>last_state_change\<close> are unchanged.
\<close>

theorem presence_update_debounce:
  assumes "distinct (map fst st)" and "map_of st e = Some s"
  shows "\<exists>s'. map_of (fst (presence_update cfg now D st)) e = Some s' \<and>
     (if e \<in> set D \<and> \<not> present s \<and> now - last_state_change s > in_threshold_seconds cfg
      then present s' \<and> last_state_change s' = now \<and>
           count_list (snd (presence_update cfg now D st)) (e, IN) = 1 \<and>
           count_list (snd (presence_update cfg now D st)) (e, OUT) = 0
      else if e \<notin> set D \<and> present s \<and> now - last_seen s > out_threshold_seconds cfg
      then \<not> present s' \<and> last_state_change s' = now \<and>
           count_list (snd (presence_update cfg now D st)) (e, OUT) = 1 \<and>
           count_list (snd (presence_update cfg now D st)) (e, IN) = 0
      else present s' = present s \<and> last_state_change s' = last_state_change s \<and>
           count_list (snd (presence_update cfg now D st)) (e, IN) = 0 \<and>
           count_list (snd (presence_update cfg now D st)) (e, OUT) = 0)"
  unfolding presence_update_lookup [OF assms]
  by (simp add: check_employee_def Let_def)

theorem presence_update_debounce_witness:
  "\<exists>s'. map_of (fst (presence_update cfg0 5 [7] [(7, fresh_state), (8, fresh_state)])) 7 = Some s' \<and>
     present s' \<and> last_state_change s' = 5 \<and>
     count_list (snd (presence_update cfg0 5 [7] [(7, fresh_state), (8, fresh_state)])) (7, IN) = 1 \<and>
     count_list (snd (presence_update cfg0 5 [7] [(7, fresh_state), (8, fresh_state)])) (7, OUT) = 0"
  using presence_update_debounce [of "[(7, fresh_state), (8, fresh_state)]" 7 fresh_state cfg0 5 "[7]"]
  by (simp add: fresh_state_def cfg0_def)

section \<open>Properties of embedding matching\<close>

lemma similarities_of_wf:
  "list_all (\<lambda>e. length e = length q) embs \<Longrightarrow>
   similarities_of q embs = Inr (map (dot_product q) embs)"
  by (induction embs) (auto simp: dot_def)

lemma argmax_from_spec:
  "(argmax_from bi b i xs = bi \<and> (\<forall>j<length xs. xs ! j \<le> b)) \<or>
   (i \<le> argmax_from bi b i xs \<and> argmax_from bi b i xs - i < length xs \<and>
    b < xs ! (argmax_from bi b i xs - i) \<and>
    (\<forall>j<length xs. xs ! j \<le> xs ! (argmax_from bi b i xs - i)) \<and>
    (\<forall>j<argmax_from bi b i xs - i. xs ! j < xs ! (argmax_from bi b i xs - i)))"
proof (induction xs arbitrary: bi b i)
  case Nil
  then show ?case by simp
next
  case (Cons x xs)
  show ?case
  proof (cases "x > b")
    case True
    let ?r = "argmax_from i x (Suc i) xs"
    have eq: "argmax_from bi b i (x # xs) = ?r" using True by simp
    from Cons.IH [of i x "Suc i"] show ?thesis
    proof
      assume a: "?r = i \<and> (\<forall>j<length xs. xs ! j \<le> x)"
      then have "\<forall>j<length (x # xs). (x # xs) ! j \<le> x"
        by (auto simp: nth_Cons')
      with a True show ?thesis unfolding eq by simp
    next
      assume a: "Suc i \<le> ?r \<and> ?r - Suc i < length xs \<and> x < xs ! (?r - Suc i) \<and>
        (\<forall>j<length xs. xs ! j \<le> xs ! (?r - Suc i)) \<and> (\<forall>j<?r - Suc i. xs ! j < xs ! (?r - Suc i))"
      then obtain d where d: "?r - i = Suc d" "?r - Suc i = d" by (metis Suc_diff_le diff_Suc_Suc)
      with a True have "i \<le> ?r" "?r - i < length (x # xs)" "b < (x # xs) ! (?r - i)"
        "\<forall>j<length (x # xs). (x # xs) ! j \<le> (x # xs) ! (?r - i)"
        "\<forall>j<?r - i. (x # xs) ! j < (x # xs) ! (?r - i)"
        by (auto simp: nth_Cons' less_Suc_eq_0_disj)
      then show ?thesis unfolding eq by blast
    qed
  next
    case False
    let ?r = "argmax_from bi b (Suc i) xs"
    have eq: "argmax_from bi b i (x # xs) = ?r" using False by simp
    from Cons.IH [of bi b "Suc i"] show ?thesis
    proof
      assume a: "?r = bi \<and> (\<forall>j<length xs. xs ! j \<le> b)"
      then have "\<forall>j<length (x # xs). (x # xs) ! j \<le> b"
        using False by (auto simp: nth_Cons')
      with a show ?thesis unfolding eq by simp
    next
      assume a: "Suc i \<le> ?r \<and> ?r - Suc i < length xs \<and> b < xs ! (?r - Suc i) \<and>
        (\<forall>j<length xs. xs ! j \<le> xs ! (?r - Suc i)) \<and> (\<forall>j<?r - Suc i. xs ! j < xs ! (?r - Suc i))"
      then obtain d where d: "?r - i = Suc d" "?r - Suc i = d" by (metis Suc_diff_le diff_Suc_Suc)
      with a False have "i \<le> ?r" "?r - i < length (x # xs)" "b < (x # xs) ! (?r - i)"
        "\<forall>j<length (x # xs). (x # xs) ! j \<le> (x # xs) ! (?r - i)"
        "\<forall>j<?r - i. (x # xs) ! j < (x # xs) ! (?r - i)"
        by (auto simp: nth_Cons' less_Suc_eq_0_disj)
      then show ?thesis unfolding eq by blast
    qed
  qed
qed

lemma argmax_spec:
  assumes "xs \<noteq> []"
  shows "\<exists>r<length xs. argmax xs = Inr r \<and> (\<forall>j<length xs. xs ! j \<le> xs ! r) \<and>
           (\<forall>j<r. xs ! j < xs ! r)"
proof -
  from assms obtain x rest where xs: "xs = x # rest" by (cases xs) auto
  let ?r = "argmax_from 0 x 1 rest"
  have am: "argmax xs = Inr ?r" by (simp add: xs argmax_def)
  from argmax_from_spec [of 0 x 1 rest] show ?thesis
  proof
    assume a: "?r = 0 \<and> (\<forall>j<length rest. rest ! j \<le> x)"
    then have "\<forall>j<length xs. xs ! j \<le> xs ! 0" by (auto simp: xs nth_Cons')
    with a am show ?thesis by (auto simp: xs)
  next
    assume a: "1 \<le> ?r \<and> ?r - 1 < length rest \<and> x < rest ! (?r - 1) \<and>
      (\<forall>j<length rest. rest ! j \<le> rest ! (?r - 1)) \<and> (\<forall>j<?r - 1. rest ! j < rest ! (?r - 1))"
    then obtain d where d: "?r = Suc d" by (cases ?r) auto
    with a have "?r < length xs" "\<forall>j<length xs. xs ! j \<le> xs ! ?r" "\<forall>j<?r. xs ! j < xs ! ?r"
      by (auto simp: xs nth_Cons' less_Suc_eq_0_disj)
    with am show ?thesis by blast
  qed
qed

lemma match_embedding_first_max:
  assumes ne: "embs \<noteq> []" and wf: "list_all (\<lambda>e. length e = length q) embs"
    and len: "length ids = length embs"
  shows "\<exists>i<length embs.
           (\<forall>j<length embs. dot_product q (embs ! j) \<le> dot_product q (embs ! i)) \<and>
           (\<forall>j<i. dot_product q (embs ! j) < dot_product q (embs ! i)) \<and>
           match_embedding_to_employee q embs ids cfg =
             (if dot_product q (embs ! i) > insightface_threshold cfg
              then Inr (Some (ids ! i), dot_product q (embs ! i)) else Inr (None, 0))"
proof -
  let ?sims = "map (dot_product q) embs"
  have "?sims \<noteq> []" using ne by simp
  from argmax_spec [OF this] obtain r where r: "r < length embs" "argmax ?sims = Inr r"
    "\<forall>j<length embs. ?sims ! j \<le> ?sims ! r" "\<forall>j<r. ?sims ! j < ?sims ! r" by auto
  have m: "match_embedding_to_employee q embs ids cfg =
             (if dot_product q (embs ! r) > insightface_threshold cfg
              then Inr (Some (ids ! r), dot_product q (embs ! r)) else Inr (None, 0))"
    using ne r(1,2) len by (simp add: match_embedding_to_employee_def similarities_of_wf [OF wf])
  from r(3,4) r(1) have "\<forall>j<length embs. dot_product q (embs ! j) \<le> dot_product q (embs ! r)"
    "\<forall>j<r. dot_product q (embs ! j) < dot_product q (embs ! r)" by auto
  with r(1) m show ?thesis by blast
qed

text \<open>The similarity is the sum of the products of the components.\<close>

lemma dot_product_sum:
  assumes "length a = length b"
  shows "dot_product a b = (\<Sum>k<length a. a ! k * b ! k)"
proof -
  have "dot_product a b = (\<Sum>i = 0..<length (zip a b). (case zip a b ! i of (x, y) \<Rightarrow> x * y))"
    unfolding dot_product_def by (simp add: sum_list_sum_nth)
  also have "\<dots> = (\<Sum>i = 0..<length a. a ! i * b ! i)"
    using assms by (intro sum.cong) simp_all
  finally show ?thesis by (simp add: atLeast0LessThan)
qed

lemma dot_product_nth:
  "list_all (\<lambda>e. length e = length q) embs \<Longrightarrow> j < length embs \<Longrightarrow>
   dot_product q (embs ! j) = (\<Sum>k<length q. q ! k * embs ! j ! k)"
  by (rule dot_product_sum) (simp add: list_all_length)

text \<open>
  Claim C5: \<^verbatim>\<open>match_embedding_to_employee\<close> returns \<open>(None, 0)\<close> on an empty roster;
  on a non-empty roster of embeddings as long as the query (with one id per embedding) the
  similarity of an entry is the sum of the products of its components with the query's, and
  the function returns the id of the first entry that attains the maximal similarity, with
  that similarity, if the maximum is strictly greater than the threshold, and
  \<open>(None, 0)\<close> otherwise. With one entry of similarity 0.81 and all others below 0.2,
  threshold 0.2 gives that entry with 0.81 and threshold 0.85 gives no match.
\<close>

theorem match_embedding_spec:
  "match_embedding_to_employee q [] ids cfg = Inr (None, 0) \<and>
   (embs \<noteq> [] \<and> list_all (\<lambda>e. length e = length q) embs \<and> length ids = length embs \<longrightarrow>
      (\<exists>i<length embs.
           (\<forall>j<length embs. (\<Sum>k<length q. q ! k * embs ! j ! k)
                               \<le> (\<Sum>k<length q. q ! k * embs ! i ! k)) \<and>
           (\<forall>j<i. (\<Sum>k<length q. q ! k * embs ! j ! k) < (\<Sum>k<length q. q ! k * embs ! i ! k)) \<and>
           match_embedding_to_employee q embs ids cfg =
             (if (\<Sum>k<length q. q ! k * embs ! i ! k) > insightface_threshold cfg
              then Inr (Some (ids ! i), \<Sum>k<length q. q ! k * embs ! i ! k)
              else Inr (None, 0)))) \<and>
   (list_all (\<lambda>e. length e = length q) embs \<and> length ids = length embs \<and>
    m < length embs \<and> (\<Sum>k<length q. q ! k * embs ! m ! k) = 0.81 \<and>
    (\<forall>j<length embs. j \<noteq> m \<longrightarrow> (\<Sum>k<length q. q ! k * embs ! j ! k) < 0.2) \<longrightarrow>
      (insightface_threshold cfg = 0.2 \<longrightarrow>
         match_embedding_to_employee q embs ids cfg = Inr (Some (ids ! m), 0.81)) \<and>
      (insightface_threshold cfg = 0.85 \<longrightarrow>
         match_embedding_to_employee q embs ids cfg = Inr (None, 0)))"
proof -
  let ?sim = "\<lambda>j. \<Sum>k<length q. q ! k * embs ! j ! k"
  have first_max: "\<exists>i<length embs.
           (\<forall>j<length embs. ?sim j \<le> ?sim i) \<and> (\<forall>j<i. ?sim j < ?sim i) \<and>
           match_embedding_to_employee q embs ids cfg =
             (if ?sim i > insightface_threshold cfg
              then Inr (Some (ids ! i), ?sim i) else Inr (None, 0))"
    if ne: "embs \<noteq> []" and wf: "list_all (\<lambda>e. length e = length q) embs"
      and len: "length ids = length embs"
  proof -
    from match_embedding_first_max [OF ne wf len, of cfg]
    obtain i where i: "i < length embs"
      "\<forall>j<length embs. dot_product q (embs ! j) \<le> dot_product q (embs ! i)"
      "\<forall>j<i. dot_product q (embs ! j) < dot_product q (embs ! i)"
      "match_embedding_to_employee q embs ids cfg =
             (if dot_product q (embs ! i) > insightface_threshold cfg
              then Inr (Some (ids ! i), dot_product q (embs ! i)) else Inr (None, 0))"
      by blast
    have d: "\<And>j. j < length embs \<Longrightarrow> dot_product q (embs ! j) = ?sim j"
      by (rule dot_product_nth [OF wf])
    have "\<forall>j<length embs. ?sim j \<le> ?sim i" using i(1,2) d by simp
    moreover have "\<forall>j<i. ?sim j < ?sim i" using i(1,3) d by simp
    moreover have "match_embedding_to_employee q embs ids cfg =
             (if ?sim i > insightface_threshold cfg
              then Inr (Some (ids ! i), ?sim i) else Inr (None, 0))"
      using i(1,4) d by simp
    ultimately show ?thesis using i(1) by blast
  qed
  have empty: "match_embedding_to_employee q [] ids cfg = Inr (None, 0)"
    by (simp add: match_embedding_to_employee_def)
  have example: "(insightface_threshold cfg = 0.2 \<longrightarrow>
         match_embedding_to_employee q embs ids cfg = Inr (Some (ids ! m), 0.81)) \<and>
      (insightface_threshold cfg = 0.85 \<longrightarrow>
         match_embedding_to_employee q embs ids cfg = Inr (None, 0))"
    if wf: "list_all (\<lambda>e. length e = length q) embs" and len: "length ids = length embs"
      and m: "m < length embs" and sm: "?sim m = 0.81"
      and others: "\<forall>j<length embs. j \<noteq> m \<longrightarrow> ?sim j < 0.2"
  proof -
    from m have ne: "embs \<noteq> []" by auto
    from first_max [OF ne wf len]
    obtain i where i: "i < length embs" "\<forall>j<length embs. ?sim j \<le> ?sim i"
      "match_embedding_to_employee q embs ids cfg =
             (if ?sim i > insightface_threshold cfg
              then Inr (Some (ids ! i), ?sim i) else Inr (None, 0))"
      by blast
    have im: "i = m"
    proof (rule ccontr)
      assume "i \<noteq> m"
      with others i(1) have "?sim i < 0.2" by blast
      moreover from i(2) m have "?sim m \<le> ?sim i" by blast
      ultimately show False using sm by simp
    qed
    show ?thesis using i(3) sm unfolding im by simp
  qed
  show ?thesis using empty first_max example by blast
qed

theorem match_embedding_spec_witness:
  "match_embedding_to_employee [0.9, 0.1] [[0, 1], [0.9, 0], [0.1, 0.5]] [4, 5, 9] cfg0
     = Inr (Some 5, 0.81) \<and>
   match_embedding_to_employee [0.9, 0.1] [[0, 1], [0.9, 0], [0.1, 0.5]] [4, 5, 9]
     (cfg0\<lparr>insightface_threshold := 0.85\<rparr>) = Inr (None, 0) \<and>
   match_embedding_to_employee [0.6, 0.8] [[1, 0], [0.6, 0.8], [0.8, 0.6], [0.6, 0.8]] [4, 5, 9, 8]
     cfg0 = Inr (Some 5, 1)"
  using match_embedding_spec [of "[0.9, 0.1]" "[4, 5, 9]" cfg0 "[[0, 1], [0.9, 0], [0.1, 0.5]]" 1]
    match_embedding_spec [of "[0.9, 0.1]" "[4, 5, 9]" "cfg0\<lparr>insightface_threshold := 0.85\<rparr>"
      "[[0, 1], [0.9, 0], [0.1, 0.5]]" 1]
    match_embedding_spec [of "[0.6, 0.8]" "[4, 5, 9, 8]" cfg0
      "[[1, 0], [0.6, 0.8], [0.8, 0.6], [0.6, 0.8]]" 1]
  by (simp add: match_embedding_to_employee_def argmax_def dot_def dot_product_def cfg0_def)

section \<open>Properties of the tracker\<close>

lemma find_matching_loop_bound:
  "find_matching_loop cfg bb m ts i best b = Some k \<Longrightarrow>
   (\<forall>j. best = Some j \<longrightarrow> j < i) \<Longrightarrow> k < i + length ts"
proof (induction ts arbitrary: i best b)
  case Nil
  then show ?case by simp
next
  case (Cons t ts)
  show ?case
  proof (cases "track_id t \<notin> m \<and> (\<exists>lb. last_bbox t = Some lb \<and>
                  compute_iou bb lb > iou_threshold cfg \<and> compute_iou bb lb > b)")
    case True
    then obtain lb where lb: "last_bbox t = Some lb" "compute_iou bb lb > iou_threshold cfg"
      "compute_iou bb lb > b" by blast
    with True Cons.prems(1)
    have "find_matching_loop cfg bb m ts (Suc i) (Some i) (compute_iou bb lb) = Some k"
      by (simp add: Let_def)
    from Cons.IH [OF this] show ?thesis by simp
  next
    case False
    with Cons.prems(1) have "find_matching_loop cfg bb m ts (Suc i) best b = Some k"
      by (auto simp: Let_def split: option.splits if_splits)
    from Cons.IH [OF this] Cons.prems(2) show ?thesis by (simp add: less_Suc_eq)
  qed
qed

lemma find_matching_track_bound:
  "find_matching_track cfg bb m ts = Some k \<Longrightarrow> k < length ts"
  using find_matching_loop_bound [of cfg bb m ts 0 None 0 k]
  by (simp add: find_matching_track_def)

lemma try_recognition_cases:
  "try_recognition cfg ke ki i ts = (ts', err) \<Longrightarrow>
   ts' = ts \<or>
   (err = None \<and> \<not> truthy (recognized_employee_id (ts ! i)) \<and>
    (\<exists>e c. truthy e \<and>
       ts' = ts[i := (ts ! i)\<lparr>recognized_employee_id := e, recognition_confidence := c\<rparr>]))"
  by (auto simp: try_recognition_def Let_def split: if_splits sum.splits option.splits prod.splits)

lemma truthy_not_zero: "truthy e \<Longrightarrow> e \<noteq> Some 0"
  by (auto simp: truthy_def)

lemma truthy_iff: "truthy e \<longleftrightarrow> e \<noteq> None \<and> e \<noteq> Some 0"
  by (cases e) (auto simp: truthy_def)

text \<open>What one face does to the list of tracks: nothing, one track rewritten in place
  (same id; identity and confidence kept if it was resolved), or one fresh track appended.\<close>

lemma process_face_cases:
  assumes "process_face cfg now ke ki face (tr, m) = ((tr', m'), err)"
  shows "(tr' = tr \<and> m' = m) \<or>
         (\<exists>i x. i < length (tracks tr) \<and> tr' = tr\<lparr>tracks := (tracks tr)[i := x]\<rparr> \<and>
            m' = insert (track_id (tracks tr ! i)) m \<and>
            track_id x = track_id (tracks tr ! i) \<and>
            (truthy (recognized_employee_id (tracks tr ! i)) \<longrightarrow>
               recognized_employee_id x = recognized_employee_id (tracks tr ! i) \<and>
               recognition_confidence x = recognition_confidence (tracks tr ! i)) \<and>
            (recognized_employee_id (tracks tr ! i) \<noteq> Some 0 \<longrightarrow>
               recognized_employee_id x \<noteq> Some 0)) \<or>
         (\<exists>x. tr' = tr\<lparr>tracks := tracks tr @ [x], next_track_id := next_track_id tr + 1\<rparr> \<and>
            m' = m \<and> track_id x = next_track_id tr \<and> recognized_employee_id x = None)"
proof (cases "crop_nonempty face \<and> acceptable face")
  case False
  with assms have "tr' = tr \<and> m' = m" by (auto simp: process_face_def split: if_splits)
  then show ?thesis by blast
next
  case ok: True
  show ?thesis
  proof (cases "find_matching_track cfg (det_bbox face) m (tracks tr)")
    case None
    let ?x = "add_embedding now (normed_embedding face) (quality face) (det_bbox face)
                (new_face_track (next_track_id tr) now)"
    from None ok assms
    have "tr' = tr\<lparr>tracks := tracks tr @ [?x], next_track_id := next_track_id tr + 1\<rparr> \<and> m' = m"
      by (simp add: process_face_def Let_def)
    moreover have "track_id ?x = next_track_id tr \<and> recognized_employee_id ?x = None"
      by (simp add: add_embedding_def new_face_track_def)
    ultimately show ?thesis by blast
  next
    case (Some i)
    then have i: "i < length (tracks tr)" by (rule find_matching_track_bound)
    let ?t = "tracks tr ! i"
    let ?b = "add_embedding now (normed_embedding face) (quality face) (det_bbox face) ?t"
    let ?ts1 = "(tracks tr)[i := ?b]"
    obtain ts' e where tr: "try_recognition cfg ke ki i ?ts1 = (ts', e)" by (cases "try_recognition cfg ke ki i ?ts1")
    from assms ok Some tr have res: "tr' = tr\<lparr>tracks := ts'\<rparr>" "m' = insert (track_id ?b) m"
      by (auto simp: process_face_def Let_def)
    have idb: "track_id ?b = track_id ?t" "recognized_employee_id ?b = recognized_employee_id ?t"
      "recognition_confidence ?b = recognition_confidence ?t"
      by (simp_all add: add_embedding_def)
    have nth1: "?ts1 ! i = ?b" using i by simp
    from try_recognition_cases [OF tr]
    have "\<exists>x. ts' = (tracks tr)[i := x] \<and> track_id x = track_id ?t \<and>
            (truthy (recognized_employee_id ?t) \<longrightarrow>
               recognized_employee_id x = recognized_employee_id ?t \<and>
               recognition_confidence x = recognition_confidence ?t) \<and>
            (recognized_employee_id ?t \<noteq> Some 0 \<longrightarrow> recognized_employee_id x \<noteq> Some 0)"
    proof
      assume "ts' = ?ts1"
      with idb show ?thesis by metis
    next
      assume "e = None \<and> \<not> truthy (recognized_employee_id (?ts1 ! i)) \<and>
        (\<exists>e c. truthy e \<and> ts' = ?ts1[i := (?ts1 ! i)\<lparr>recognized_employee_id := e, recognition_confidence := c\<rparr>])"
      then obtain e' c where nt: "\<not> truthy (recognized_employee_id ?b)" and te: "truthy e'"
        and ts': "ts' = ?ts1[i := ?b\<lparr>recognized_employee_id := e', recognition_confidence := c\<rparr>]"
        unfolding nth1 by blast
      let ?x = "?b\<lparr>recognized_employee_id := e', recognition_confidence := c\<rparr>"
      have "ts' = (tracks tr)[i := ?x]" using ts' by simp
      moreover have "track_id ?x = track_id ?t" by (simp add: add_embedding_def)
      moreover have "\<not> truthy (recognized_employee_id ?t)" using nt idb by simp
      moreover have "recognized_employee_id ?x \<noteq> Some 0" using te by (auto simp: truthy_def)
      ultimately show ?thesis by blast
    qed
    with res idb i show ?thesis by auto
  qed
qed

lemma process_face_inv:
  assumes "process_face cfg now ke ki face (tr, m) = ((tr', m'), err)" and "tracker_inv tr"
  shows "tracker_inv tr'"
  using process_face_cases [OF assms(1)]
proof (elim disjE exE conjE)
  assume "tr' = tr"
  with assms(2) show ?thesis by simp
next
  fix i x
  assume a: "i < length (tracks tr)" "tr' = tr\<lparr>tracks := (tracks tr)[i := x]\<rparr>"
    "track_id x = track_id (tracks tr ! i)"
    "recognized_employee_id (tracks tr ! i) \<noteq> Some 0 \<longrightarrow> recognized_employee_id x \<noteq> Some 0"
  have ids: "map track_id ((tracks tr)[i := x]) = map track_id (tracks tr)"
    using a(1,3) by (simp add: map_update list_update_same_conv)
  have ti: "tracks tr ! i \<in> set (tracks tr)" using a(1) by simp
  have "\<forall>t \<in> set ((tracks tr)[i := x]). track_id t < next_track_id tr \<and> recognized_employee_id t \<noteq> Some 0"
  proof
    fix t assume "t \<in> set ((tracks tr)[i := x])"
    then have "t = x \<or> t \<in> set (tracks tr)" using set_update_subset_insert by fastforce
    then show "track_id t < next_track_id tr \<and> recognized_employee_id t \<noteq> Some 0"
      using assms(2) a(3,4) ti by (auto simp: tracker_inv_def list_all_iff)
  qed
  with ids assms(2) a(2) show ?thesis by (simp add: tracker_inv_def list_all_iff)
next
  fix x
  assume a: "tr' = tr\<lparr>tracks := tracks tr @ [x], next_track_id := next_track_id tr + 1\<rparr>"
    "track_id x = next_track_id tr" "recognized_employee_id x = None"
  with assms(2) show ?thesis by (fastforce simp: tracker_inv_def list_all_iff)
qed

lemma process_face_keeps:
  assumes "process_face cfg now ke ki face (tr, m) = ((tr', m'), err)"
  shows "keeps_resolved tr tr'"
  using process_face_cases [OF assms]
proof (elim disjE exE conjE)
  assume "tr' = tr"
  then show ?thesis by (auto simp: keeps_resolved_def list_all_iff list_ex_iff)
next
  fix i x
  assume a: "i < length (tracks tr)" "tr' = tr\<lparr>tracks := (tracks tr)[i := x]\<rparr>"
    "track_id x = track_id (tracks tr ! i)"
    "truthy (recognized_employee_id (tracks tr ! i)) \<longrightarrow>
       recognized_employee_id x = recognized_employee_id (tracks tr ! i) \<and>
       recognition_confidence x = recognition_confidence (tracks tr ! i)"
  have ti: "tracks tr ! i \<in> set (tracks tr)" using a(1) by simp
  have "\<forall>t' \<in> set ((tracks tr)[i := x]). \<exists>t \<in> set (tracks tr). track_id t = track_id t' \<and>
          (truthy (recognized_employee_id t) \<longrightarrow> recognized_employee_id t' = recognized_employee_id t \<and>
             recognition_confidence t' = recognition_confidence t)"
  proof
    fix t' assume "t' \<in> set ((tracks tr)[i := x])"
    then have "t' = x \<or> t' \<in> set (tracks tr)" using set_update_subset_insert by fastforce
    then show "\<exists>t \<in> set (tracks tr). track_id t = track_id t' \<and>
          (truthy (recognized_employee_id t) \<longrightarrow> recognized_employee_id t' = recognized_employee_id t \<and>
             recognition_confidence t' = recognition_confidence t)"
      using a(3,4) ti by auto
  qed
  with a(2) show ?thesis by (simp add: keeps_resolved_def list_all_iff list_ex_iff)
next
  fix x
  assume a: "tr' = tr\<lparr>tracks := tracks tr @ [x], next_track_id := next_track_id tr + 1\<rparr>"
    "track_id x = next_track_id tr"
  then show ?thesis by (auto simp: keeps_resolved_def list_all_iff list_ex_iff)
qed

lemma keeps_resolved_refl: "keeps_resolved tr tr"
  by (auto simp: keeps_resolved_def list_all_iff list_ex_iff)

lemma keeps_resolved_trans:
  assumes "keeps_resolved a b" and "keeps_resolved b c"
  shows "keeps_resolved a c"
proof -
  have n: "next_track_id a \<le> next_track_id b" "next_track_id b \<le> next_track_id c"
    using assms by (auto simp: keeps_resolved_def)
  have "\<forall>t'' \<in> set (tracks c). track_id t'' < next_track_id a \<longrightarrow>
          (\<exists>t \<in> set (tracks a). track_id t = track_id t'' \<and>
            (truthy (recognized_employee_id t) \<longrightarrow> recognized_employee_id t'' = recognized_employee_id t \<and>
               recognition_confidence t'' = recognition_confidence t))"
  proof (intro ballI impI)
    fix t'' assume t'': "t'' \<in> set (tracks c)" "track_id t'' < next_track_id a"
    with n assms(2) obtain t' where t': "t' \<in> set (tracks b)" "track_id t' = track_id t''"
      "truthy (recognized_employee_id t') \<longrightarrow> recognized_employee_id t'' = recognized_employee_id t' \<and>
         recognition_confidence t'' = recognition_confidence t'"
      by (fastforce simp: keeps_resolved_def list_all_iff list_ex_iff)
    with t''(2) assms(1) obtain t where t: "t \<in> set (tracks a)" "track_id t = track_id t'"
      "truthy (recognized_employee_id t) \<longrightarrow> recognized_employee_id t' = recognized_employee_id t \<and>
         recognition_confidence t' = recognition_confidence t"
      by (fastforce simp: keeps_resolved_def list_all_iff list_ex_iff)
    show "\<exists>t \<in> set (tracks a). track_id t = track_id t'' \<and>
            (truthy (recognized_employee_id t) \<longrightarrow> recognized_employee_id t'' = recognized_employee_id t \<and>
               recognition_confidence t'' = recognition_confidence t)"
      using t t' by (intro bexI [of _ t]) auto
  qed
  with n show ?thesis by (simp add: keeps_resolved_def list_all_iff list_ex_iff)
qed

lemma faces_loop_inv_keeps:
  "faces_loop cfg now ke ki faces (tr, m) = ((tr', m'), err) \<Longrightarrow> tracker_inv tr \<Longrightarrow>
   tracker_inv tr' \<and> keeps_resolved tr tr'"
proof (induction faces arbitrary: tr m)
  case Nil
  then show ?case by (simp add: keeps_resolved_refl)
next
  case (Cons f faces)
  obtain tr1 m1 e1 where p: "process_face cfg now ke ki f (tr, m) = ((tr1, m1), e1)"
    by (metis surj_pair)
  have i1: "tracker_inv tr1" by (rule process_face_inv [OF p Cons.prems(2)])
  have k1: "keeps_resolved tr tr1" by (rule process_face_keeps [OF p])
  show ?case
  proof (cases e1)
    case None
    with Cons.prems(1) p have "faces_loop cfg now ke ki faces (tr1, m1) = ((tr', m'), err)" by simp
    from Cons.IH [OF this i1] k1 show ?thesis by (blast intro: keeps_resolved_trans)
  next
    case (Some e)
    with Cons.prems(1) p have "tr' = tr1" by simp
    with i1 k1 show ?thesis by simp
  qed
qed

lemma tracker_update_inv_keeps:
  assumes "tracker_inv tr"
  shows "tracker_inv (fst (tracker_update cfg now faces ke ki tr)) \<and>
         keeps_resolved tr (fst (tracker_update cfg now faces ke ki tr))"
proof -
  let ?tr1 = "tr\<lparr>tracks := filter (is_alive cfg now) (tracks tr)\<rparr>"
  have i1: "tracker_inv ?tr1" using assms
    by (auto simp: tracker_inv_def list_all_iff distinct_map_filter)
  have k1: "keeps_resolved tr ?tr1" by (auto simp: keeps_resolved_def list_all_iff list_ex_iff)
  obtain tr2 m2 e where l: "faces_loop cfg now ke ki faces (?tr1, {}) = ((tr2, m2), e)"
    by (metis surj_pair)
  have f: "fst (tracker_update cfg now faces ke ki tr) = tr2"
    using l by (simp add: tracker_update_def Let_def)
  from faces_loop_inv_keeps [OF l i1] k1 show ?thesis unfolding f
    by (blast intro: keeps_resolved_trans)
qed

lemma tracker_run_inv_keeps:
  "tracker_inv tr \<Longrightarrow> tracker_inv (tracker_run cfg calls tr) \<and> keeps_resolved tr (tracker_run cfg calls tr)"
proof (induction calls arbitrary: tr)
  case Nil
  then show ?case by (simp add: keeps_resolved_refl)
next
  case (Cons c calls)
  obtain now faces ke ki where c: "c = (now, faces, ke, ki)" by (metis surj_pair)
  let ?tr1 = "fst (tracker_update cfg now faces ke ki tr)"
  from tracker_update_inv_keeps [OF Cons.prems, of cfg now faces ke ki]
  have a: "tracker_inv ?tr1" "keeps_resolved tr ?tr1" by simp_all
  from Cons.IH [OF a(1)] a(2) c show ?case by (auto intro: keeps_resolved_trans)
qed

lemma tracker_init_inv: "tracker_inv tracker_init"
  by (simp add: tracker_inv_def tracker_init_def)

lemma set_map_filter_iff: "y \<in> set (List.map_filter f xs) \<longleftrightarrow> (\<exists>x \<in> set xs. f x = Some y)"
  by (induction xs) (auto simp: List.map_filter_simps split: option.splits)

lemma try_recognition_zero:
  assumes "get_average_embedding (ts ! i) = Inr (Some avg)"
    and "match_embedding_to_employee avg ke ki cfg = Inr (Some 0, c)"
  shows "try_recognition cfg ke ki i ts = (ts, None)"
  using assms by (simp add: try_recognition_def Let_def truthy_def)

text \<open>
  Claim C10: in every tracker state reached from the initial one by calls of
  \<^verbatim>\<open>update\<close>, no track has \<^verbatim>\<open>recognized_employee_id\<close> equal to \<open>0\<close>; the ids
  handed to the presence manager after an update never contain \<open>0\<close>; and when the
  matcher returns id \<open>0\<close> (with any similarity) the guard \<^verbatim>\<open>if emp_id\<close> drops the
  result and leaves the tracks as they are.
\<close>

theorem tracker_never_resolves_zero:
  "(\<forall>t \<in> set (tracks (tracker_run cfg calls tracker_init)). recognized_employee_id t \<noteq> Some 0) \<and>
   (\<forall>rts. snd (tracker_update cfg now faces ke ki (tracker_run cfg calls tracker_init)) = Inr rts
       \<longrightarrow> 0 \<notin> set (recognized_emp_ids rts)) \<and>
   (get_average_embedding (ts ! i) = Inr (Some avg) \<and>
    match_embedding_to_employee avg ke' ki' cfg = Inr (Some 0, c)
       \<longrightarrow> try_recognition cfg ke' ki' i ts = (ts, None))"
proof (intro conjI allI impI)
  let ?tr = "tracker_run cfg calls tracker_init"
  have inv: "tracker_inv ?tr" using tracker_run_inv_keeps [OF tracker_init_inv] by blast
  then show "\<forall>t \<in> set (tracks ?tr). recognized_employee_id t \<noteq> Some 0"
    by (simp add: tracker_inv_def list_all_iff)
  fix rts
  assume r: "snd (tracker_update cfg now faces ke ki ?tr) = Inr rts"
  let ?tr2 = "fst (tracker_update cfg now faces ke ki ?tr)"
  have inv2: "tracker_inv ?tr2" using tracker_update_inv_keeps [OF inv] by blast
  have "set rts \<subseteq> set (tracks ?tr2)"
    using r by (auto simp: tracker_update_def Let_def split: prod.splits option.splits)
  with inv2 have "\<forall>t \<in> set rts. recognized_employee_id t \<noteq> Some 0"
    by (auto simp: tracker_inv_def list_all_iff)
  then show "0 \<notin> set (recognized_emp_ids rts)"
    by (auto simp: recognized_emp_ids_def set_map_filter_iff)
next
  assume "get_average_embedding (ts ! i) = Inr (Some avg) \<and>
    match_embedding_to_employee avg ke' ki' cfg = Inr (Some 0, c)"
  then show "try_recognition cfg ke' ki' i ts = (ts, None)"
    using try_recognition_zero by blast
qed

lemmas tracker_eval =
  tracker_update_def tracker_init_def process_face_def try_recognition_def
  find_matching_track_def compute_iou_def add_embedding_def new_face_track_def
  is_ready_for_recognition_def get_average_embedding_def mean_axis0_def is_alive_def
  truthy_def match_embedding_to_employee_def argmax_def dot_def dot_product_def
  face0_def cfg0_def Let_def

theorem tracker_never_resolves_zero_witness:
  "map recognized_employee_id
     (tracks (tracker_run cfg0 [(0, [face0], [[1, 0]], [0]), (0.1, [face0], [[1, 0]], [0])]
        tracker_init)) = [None] \<and>
   match_embedding_to_employee [1, 0] [[1, 0]] [0] cfg0 = Inr (Some 0, 1) \<and>
   recognized_emp_ids [] = []"
  using tracker_never_resolves_zero [of cfg0 "[(0, [face0], [[1, 0]], [0]), (0.1, [face0], [[1, 0]], [0])]"
     "0.2" "[]" "[[1, 0]]" "[0]" "[\<lparr>track_id = 1, embeddings = [[1, 0], [1, 0]], quality_scores = [],
        last_bbox = None, last_update_time = 0, recognized_employee_id = None,
        recognition_confidence = 0\<rparr>]" 0 "[1, 0]" "[[1, 0]]" "[0]" 1]
  by (simp add: tracker_eval recognized_emp_ids_def List.map_filter_simps)

lemma try_recognition_resolved:
  "truthy (recognized_employee_id (ts ! i)) \<Longrightarrow> try_recognition cfg ke ki i ts = (ts, None)"
  by (simp add: try_recognition_def Let_def)

lemma process_face_resolved:
  assumes "crop_nonempty face" and "acceptable face"
    and "find_matching_track cfg (det_bbox face) m (tracks tr) = Some i"
    and "truthy (recognized_employee_id (tracks tr ! i))"
  shows "process_face cfg now ke ki face (tr, m) =
           ((tr\<lparr>tracks := (tracks tr)[i := add_embedding now (normed_embedding face) (quality face)
                                           (det_bbox face) (tracks tr ! i)]\<rparr>,
             insert (track_id (tracks tr ! i)) m), None)"
proof -
  have i: "i < length (tracks tr)" using assms(3) by (rule find_matching_track_bound)
  let ?b = "add_embedding now (normed_embedding face) (quality face) (det_bbox face) (tracks tr ! i)"
  have "truthy (recognized_employee_id (((tracks tr)[i := ?b]) ! i))"
    using i assms(4) by (simp add: add_embedding_def)
  then have "try_recognition cfg ke ki i ((tracks tr)[i := ?b]) = ((tracks tr)[i := ?b], None)"
    by (rule try_recognition_resolved)
  moreover have "track_id ?b = track_id (tracks tr ! i)" by (simp add: add_embedding_def)
  ultimately show ?thesis using assms(1,2,3) by (simp add: process_face_def Let_def)
qed

text \<open>
  Claim C6: for a tracker reached from the initial one by calls of \<^verbatim>\<open>update\<close>, and
  any later state reached by further calls: a track that was resolved still has, whenever it
  is still in the list, the same \<^verbatim>\<open>recognized_employee_id\<close> and the same
  \<^verbatim>\<open>recognition_confidence\<close> (track ids are never reused, so the id names the track).
  Resolution is not attempted again: a detection matched to a resolved track only appends
  its embedding, whatever the roster holds, and raises nothing.
\<close>

theorem resolved_identity_permanent:
  "(tr = tracker_run cfg calls tracker_init \<and> tr' = tracker_run cfg calls' tr \<and>
    t \<in> set (tracks tr) \<and> t' \<in> set (tracks tr') \<and> track_id t' = track_id t \<and>
    recognized_employee_id t \<noteq> None
      \<longrightarrow> recognized_employee_id t' = recognized_employee_id t \<and>
          recognition_confidence t' = recognition_confidence t) \<and>
   (tr = tracker_run cfg calls tracker_init \<and> crop_nonempty face \<and> acceptable face \<and>
    find_matching_track cfg (det_bbox face) m (tracks tr) = Some i \<and>
    recognized_employee_id (tracks tr ! i) \<noteq> None
      \<longrightarrow> process_face cfg now ke ki face (tr, m) =
           ((tr\<lparr>tracks := (tracks tr)[i := add_embedding now (normed_embedding face) (quality face)
                                           (det_bbox face) (tracks tr ! i)]\<rparr>,
             insert (track_id (tracks tr ! i)) m), None))"
proof (rule conjI; rule impI)
  assume a: "tr = tracker_run cfg calls tracker_init \<and> tr' = tracker_run cfg calls' tr \<and>
    t \<in> set (tracks tr) \<and> t' \<in> set (tracks tr') \<and> track_id t' = track_id t \<and>
    recognized_employee_id t \<noteq> None"
  then have inv: "tracker_inv tr" using tracker_run_inv_keeps [OF tracker_init_inv] by blast
  have k: "keeps_resolved tr tr'" using a tracker_run_inv_keeps [OF inv] by blast
  have lt: "track_id t' < next_track_id tr" using inv a by (auto simp: tracker_inv_def list_all_iff)
  with k a obtain t0 where t0: "t0 \<in> set (tracks tr)" "track_id t0 = track_id t'"
    "truthy (recognized_employee_id t0) \<longrightarrow> recognized_employee_id t' = recognized_employee_id t0 \<and>
       recognition_confidence t' = recognition_confidence t0"
    by (fastforce simp: keeps_resolved_def list_all_iff list_ex_iff)
  have "inj_on track_id (set (tracks tr))" using inv by (simp add: tracker_inv_def distinct_map)
  then have "t0 = t" using t0(1,2) a by (auto dest: inj_onD)
  moreover have "truthy (recognized_employee_id t)"
    using inv a by (auto simp: tracker_inv_def list_all_iff truthy_iff)
  ultimately show "recognized_employee_id t' = recognized_employee_id t \<and>
          recognition_confidence t' = recognition_confidence t" using t0(3) by simp
next
  assume a: "tr = tracker_run cfg calls tracker_init \<and> crop_nonempty face \<and> acceptable face \<and>
    find_matching_track cfg (det_bbox face) m (tracks tr) = Some i \<and>
    recognized_employee_id (tracks tr ! i) \<noteq> None"
  then have inv: "tracker_inv tr" using tracker_run_inv_keeps [OF tracker_init_inv] by blast
  have i: "i < length (tracks tr)" using a find_matching_track_bound by blast
  then have "tracks tr ! i \<in> set (tracks tr)" by simp
  with inv a have "truthy (recognized_employee_id (tracks tr ! i))"
    by (auto simp: tracker_inv_def list_all_iff truthy_iff)
  with a show "process_face cfg now ke ki face (tr, m) =
           ((tr\<lparr>tracks := (tracks tr)[i := add_embedding now (normed_embedding face) (quality face)
                                           (det_bbox face) (tracks tr ! i)]\<rparr>,
             insert (track_id (tracks tr ! i)) m), None)"
    using process_face_resolved by blast
qed

theorem resolved_identity_permanent_witness:
  "map (\<lambda>t. (track_id t, recognized_employee_id t, recognition_confidence t))
     (tracks (tracker_run cfg0 [(0, [face0], [[1, 0]], [7]), (0.1, [face0], [[1, 0]], [7])]
        tracker_init)) = [(1, Some 7, 1)] \<and>
   map (\<lambda>t. (track_id t, recognized_employee_id t, recognition_confidence t))
     (tracks (tracker_run cfg0 [(0.2, [face0], [[0, 1], [1, 0]], [9, 8])]
        (tracker_run cfg0 [(0, [face0], [[1, 0]], [7]), (0.1, [face0], [[1, 0]], [7])]
           tracker_init))) = [(1, Some 7, 1)]"
  using resolved_identity_permanent [of
     "tracker_run cfg0 [(0, [face0], [[1, 0]], [7]), (0.1, [face0], [[1, 0]], [7])] tracker_init"
     cfg0 "[(0, [face0], [[1, 0]], [7]), (0.1, [face0], [[1, 0]], [7])]"
     "tracker_run cfg0 [(0.2, [face0], [[0, 1], [1, 0]], [9, 8])]
        (tracker_run cfg0 [(0, [face0], [[1, 0]], [7]), (0.1, [face0], [[1, 0]], [7])] tracker_init)"
     "[(0.2, [face0], [[0, 1], [1, 0]], [9, 8])]"
     "\<lparr>track_id = 1, embeddings = [[1, 0], [1, 0]],
        quality_scores = [quality face0, quality face0],
        last_bbox = Some (0, 0, 10, 10), last_update_time = 0.1,
        recognized_employee_id = Some 7, recognition_confidence = 1\<rparr>"
     "\<lparr>track_id = 1, embeddings = [[1, 0], [1, 0], [1, 0]],
        quality_scores = [quality face0, quality face0, quality face0],
        last_bbox = Some (0, 0, 10, 10), last_update_time = 0.2,
        recognized_employee_id = Some 7, recognition_confidence = 1\<rparr>"
     face0 "{}" 0 "0.2" "[[0, 1], [1, 0]]" "[9, 8]"]
  by (simp add: tracker_eval)












text \<open>
  A track that a detection of the call creates is not in the set of matched tracks, so a
  second detection of the same call at the same place is matched to it and, with
  \<^verbatim>\<open>min_embeddings_per_track = 2\<close>, resolves it in the call that created it.
\<close>

lemma created_track_resolved_in_same_call:
  "map (\<lambda>t. (track_id t, embeddings t, recognized_employee_id t, recognition_confidence t))
     (tracks (fst (tracker_update cfg0 0 [face0, face0] [[1, 0]] [7] tracker_init)))
     = [(1, [[1, 0], [1, 0]], Some 7, 1)]"
  by (simp add: tracker_eval)

section \<open>Properties of the camera connection\<close>

lemma attempts_and_waits_append:
  "attempts_and_waits (xs @ ys) = attempts_and_waits xs @ attempts_and_waits ys"
  by (induction xs rule: attempts_and_waits.induct) simp_all

lemma attempts_of_append: "attempts_of (xs @ ys) = attempts_of xs @ attempts_of ys"
  by (induction xs rule: attempts_of.induct) simp_all

lemma waits_of_append: "waits_of (xs @ ys) = waits_of xs @ waits_of ys"
  by (induction xs rule: waits_of.induct) simp_all

lemma opening_extras:
  "attempts_and_waits (case source of Local camera_index \<Rightarrow> []
       | Stream url \<Rightarrow> if c then [SetBufferSize] else []) = []"
  "attempts_of (case source of Local camera_index \<Rightarrow> []
       | Stream url \<Rightarrow> if c then [SetBufferSize] else []) = []"
  "waits_of (case source of Local camera_index \<Rightarrow> []
       | Stream url \<Rightarrow> if c then [SetBufferSize] else []) = []"
  by (cases source; simp)+

lemma connect_attempts_fail_step:
  assumes "always_fails (open_source source) a"
  shows "\<exists>pre. fst (connect_attempts open_source source rtsp mr (a # as)) =
           pre @ (if int a < mr - 1 then [Sleep (2 ^ a)] else []) @
             fst (connect_attempts open_source source rtsp mr as) \<and>
           attempts_and_waits pre = [Open a] \<and> attempts_of pre = [a] \<and> waits_of pre = [] \<and>
           snd (connect_attempts open_source source rtsp mr (a # as)) =
             snd (connect_attempts open_source source rtsp mr as)"
proof -
  let ?extras = "case source of Local camera_index \<Rightarrow> []
       | Stream url \<Rightarrow> if open_source source a \<noteq> None \<and> rtsp then [SetBufferSize] else []"
  show ?thesis
  proof (cases "open_source source a")
    case None
    then show ?thesis
      by (intro exI [of _ "Open a # ?extras"])
         (simp add: Let_def opening_extras split: prod.splits)
  next
    case (Some cap)
    show ?thesis
    proof (cases "is_opened cap")
      case True
      with Some assms have nr: "\<not> first_read_ok cap" by (simp add: always_fails_def)
      show ?thesis
        using Some True nr
        by (intro exI [of _ "Open a # ?extras @ [Read, Release]"])
           (simp add: Let_def opening_extras attempts_and_waits_append attempts_of_append
              waits_of_append split: prod.splits)
    next
      case False
      show ?thesis
        using Some False
        by (intro exI [of _ "Open a # ?extras"])
           (simp add: Let_def opening_extras split: prod.splits)
    qed
  qed
qed

lemma connect_attempts_all_fail:
  "\<forall>a \<in> set as. always_fails (open_source source) a \<Longrightarrow>
   snd (connect_attempts open_source source rtsp mr as) = Inl RuntimeError \<and>
   attempts_and_waits (fst (connect_attempts open_source source rtsp mr as)) =
     concat (map (\<lambda>a. Open a # (if int a < mr - 1 then [Sleep (2 ^ a)] else [])) as) \<and>
   attempts_of (fst (connect_attempts open_source source rtsp mr as)) = as \<and>
   waits_of (fst (connect_attempts open_source source rtsp mr as)) =
     map (\<lambda>a. 2 ^ a) (filter (\<lambda>a. int a < mr - 1) as)"
proof (induction as)
  case Nil
  then show ?case by simp
next
  case (Cons a as)
  then have f: "always_fails (open_source source) a" by simp
  from connect_attempts_fail_step [of open_source source a rtsp mr as, OF f]
  obtain pre where pre: "fst (connect_attempts open_source source rtsp mr (a # as)) =
           pre @ (if int a < mr - 1 then [Sleep (2 ^ a)] else []) @
             fst (connect_attempts open_source source rtsp mr as)"
    "attempts_and_waits pre = [Open a]" "attempts_of pre = [a]" "waits_of pre = []"
    "snd (connect_attempts open_source source rtsp mr (a # as)) =
             snd (connect_attempts open_source source rtsp mr as)" by blast
  from Cons have IH: "snd (connect_attempts open_source source rtsp mr as) = Inl RuntimeError"
    "attempts_and_waits (fst (connect_attempts open_source source rtsp mr as)) =
     concat (map (\<lambda>a. Open a # (if int a < mr - 1 then [Sleep (2 ^ a)] else [])) as)"
    "attempts_of (fst (connect_attempts open_source source rtsp mr as)) = as"
    "waits_of (fst (connect_attempts open_source source rtsp mr as)) =
     map (\<lambda>a. 2 ^ a) (filter (\<lambda>a. int a < mr - 1) as)" by simp_all
  show ?case
    unfolding pre(1) pre(5) attempts_and_waits_append attempts_of_append waits_of_append
      pre(2,3,4) IH
    by simp
qed

lemma filter_before_last: "filter (\<lambda>a. int a < int n - 1) [0..<n] = [0..<n - 1]"
proof (cases n)
  case 0
  then show ?thesis by simp
next
  case (Suc k)
  have "filter (\<lambda>a. a < k) [0..<k] = [0..<k]" by (simp add: filter_id_conv)
  with Suc show ?thesis by simp
qed

lemma sum_powers_of_two: "sum_list (map (\<lambda>a. 2 ^ a) [0..<n]) = (2::nat) ^ n - 1"
  by (induction n) simp_all

text \<open>
  The retry loop, for a source that the classification accepts: with \<open>max_retries \<ge> 1\<close>
  and a source whose opening or verification fails in every attempt,
  \<^verbatim>\<open>connect_camera\<close> makes exactly the attempts \<open>0, ..., max_retries - 1\<close>, sleeps
  \<open>2 ^ attempt\<close> seconds after every failed attempt but the last (the attempts and the
  sleeps alternate, ending with an attempt), and raises \<^verbatim>\<open>RuntimeError\<close>; it sleeps
  \<open>2 ^ (max_retries - 1) - 1\<close> seconds in all.
\<close>

lemma connect_camera_retries:
  assumes "classify_source (camera_source cfg) = Inr source"
    and "1 \<le> max_retries"
    and "\<forall>attempt < nat max_retries. always_fails (open_source source) attempt"
  shows "snd (connect_camera open_source cfg max_retries) = Inl RuntimeError \<and>
         attempts_of (fst (connect_camera open_source cfg max_retries)) = [0..<nat max_retries] \<and>
         waits_of (fst (connect_camera open_source cfg max_retries)) =
           map (\<lambda>attempt. 2 ^ attempt) [0..<nat max_retries - 1] \<and>
         attempts_and_waits (fst (connect_camera open_source cfg max_retries)) =
           concat (map (\<lambda>attempt. Open attempt #
                          (if Suc attempt < nat max_retries then [Sleep (2 ^ attempt)] else []))
                     [0..<nat max_retries]) \<and>
         sum_list (waits_of (fst (connect_camera open_source cfg max_retries))) =
           2 ^ (nat max_retries - 1) - 1"
proof -
  let ?n = "nat max_retries"
  have mr: "max_retries = int ?n" using assms(2) by simp
  have all: "\<forall>a \<in> set [0..<?n]. always_fails (open_source source) a" using assms(3) by simp
  note r = connect_attempts_all_fail [of "[0..<?n]" open_source source
      "prefix ''rtsp://'' (camera_source cfg)" max_retries, OF all]
  have w: "waits_of (fst (connect_camera open_source cfg max_retries)) =
           map (\<lambda>attempt. 2 ^ attempt) [0..<?n - 1]"
    using r filter_before_last [of ?n] mr by (simp add: connect_camera_def assms(1))
  have c: "(\<lambda>a. Open a # (if int a < max_retries - 1 then [Sleep (2 ^ a)] else [])) =
           (\<lambda>attempt. Open attempt # (if Suc attempt < ?n then [Sleep (2 ^ attempt)] else []))"
    using assms(2) by (auto simp: fun_eq_iff)
  show ?thesis
    using r w c by (simp add: connect_camera_def assms(1) sum_powers_of_two)
qed

lemma classify_source_examples:
  "classify_source ''0'' = Inr (Local 0)"
  "classify_source ''rtsp://host/1'' = Inr (Stream ''rtsp://host/1'')"
  "classify_source '' +1_2 '' = Inr (Local 12)"
  "classify_source ''cam'' = Inr (Stream ''cam'')"
  "classify_source [CHR 0xB2] = Inl ValueError"
  by (simp_all add: classify_source_def py_isdigit_def py_int_def py_strip_def py_whitespace_def
        decimal_digits_def digit_value_def)

lemma connect_camera_three_retries:
  "connect_camera (\<lambda>_ _. Some \<lparr>is_opened = True, first_read_ok = False\<rparr>) cfg0 3 =
     ([Open 0, Read, Release, Sleep 1, Open 1, Read, Release, Sleep 2, Open 2, Read, Release],
      Inl RuntimeError)"
  using classify_source_examples(1)
  by (simp add: connect_camera_def cfg0_def upt_conv_Cons Let_def)

text \<open>
  Claim C7 fails on the code for a source that \<^verbatim>\<open>isdigit()\<close> accepts and \<^verbatim>\<open>int()\<close>
  does not, such as the superscript two: \<^verbatim>\<open>connect_camera\<close> raises \<^verbatim>\<open>ValueError\<close>
  from the classification, before the first attempt and without a wait, whatever
  \<open>max_retries\<close> is and whatever opening the source would yield.
\<close>

theorem connect_camera_superscript_digit:
  "connect_camera open_source (cfg\<lparr>camera_source := [CHR 0xB2]\<rparr>) max_retries =
     ([], Inl ValueError)"
  using classify_source_examples(5) by (simp add: connect_camera_def)

theorem connect_camera_superscript_digit_witness:
  "connect_camera (\<lambda>_ _. None) (cfg0\<lparr>camera_source := [CHR 0xB2]\<rparr>) 3 = ([], Inl ValueError) \<and>
   py_isdigit [CHR 0xB2] \<and> py_int [CHR 0xB2] = None"
  using connect_camera_superscript_digit [of "\<lambda>_ _. None" cfg0 3]
  by (simp add: py_isdigit_def py_int_def py_strip_def py_whitespace_def decimal_digits_def)

section \<open>Properties of the multi-camera manager\<close>

lemma stop_cameras_Cons:
  "stop_cameras (k # ids) reg =
     (fst (stop_cameras ids (fst (stop_camera k reg))),
      snd (stop_camera k reg) @ snd (stop_cameras ids (fst (stop_camera k reg))))"
  by (simp split: prod.splits)

lemma start_cameras_Cons:
  "start_cameras (c # cams) reg =
     (fst (start_cameras cams (fst (start_camera c reg))),
      snd (start_camera c reg) @ snd (start_cameras cams (fst (start_camera c reg))))"
  by (simp split: prod.splits)

lemma count_list_map_Stopped: "count_list (map Stopped xs) (Stopped k) = count_list xs k"
  by (induction xs) auto

lemma count_list_map_Stopped_Started: "count_list (map Stopped xs) (Started k) = 0"
  by (induction xs) auto

lemma count_list_distinct: "distinct xs \<Longrightarrow> count_list xs k = (if k \<in> set xs then 1 else 0)"
  by (induction xs) auto

lemma keys_iff: "k \<in> fst ` set reg \<longleftrightarrow> map_of reg k \<noteq> None"
  by (simp add: map_of_eq_None_iff)

lemma stop_camera_map_of:
  "map_of (fst (stop_camera j reg)) k = (if k = j then None else map_of reg k)"
  by (auto simp: stop_camera_def delete_conv' keys_iff)

lemma stop_camera_events:
  "snd (stop_camera j reg) = (if j \<in> fst ` set reg then [Stopped j] else [])"
  by (simp add: stop_camera_def)

lemma stop_cameras_map_of:
  "map_of (fst (stop_cameras ids reg)) k = (if k \<in> set ids then None else map_of reg k)"
  by (induction ids arbitrary: reg)
     (auto simp: stop_cameras_Cons stop_camera_map_of simp del: stop_cameras.simps(2))

lemma stop_cameras_events:
  "distinct ids \<Longrightarrow> set ids \<subseteq> fst ` set reg \<Longrightarrow> snd (stop_cameras ids reg) = map Stopped ids"
proof (induction ids arbitrary: reg)
  case Nil
  then show ?case by simp
next
  case (Cons j ids)
  have "set ids \<subseteq> fst ` set (fst (stop_camera j reg))"
  proof
    fix k assume k: "k \<in> set ids"
    with Cons.prems have "k \<noteq> j" "k \<in> fst ` set reg" by auto
    then have "k \<noteq> j" "map_of reg k \<noteq> None" by (simp_all add: keys_iff)
    then show "k \<in> fst ` set (fst (stop_camera j reg))"
      unfolding keys_iff by (simp add: stop_camera_map_of)
  qed
  with Cons show ?case
    by (simp add: stop_cameras_Cons stop_camera_events del: stop_cameras.simps(2))
qed

lemma start_camera_map_of:
  "map_of (fst (start_camera c reg)) k =
     (if k = cam_id c \<and> \<not> worker_alive reg k then Some (new_camera_thread c) else map_of reg k)"
  by (auto simp: start_camera_def worker_alive_def Let_def update_conv' delete_conv'
           split: option.splits)

lemma start_camera_events:
  "snd (start_camera c reg) = (if worker_alive reg (cam_id c) then [] else [Started (cam_id c)])"
  by (auto simp: start_camera_def worker_alive_def Let_def split: option.splits)

lemma start_camera_alive:
  "worker_alive (fst (start_camera c reg)) k \<longleftrightarrow> k = cam_id c \<or> worker_alive reg k"
  by (auto simp: worker_alive_def start_camera_map_of new_camera_thread_def split: option.splits)

lemma start_cameras_stopped: "Stopped j \<notin> set (snd (start_cameras cams reg))"
  by (induction cams arbitrary: reg)
     (auto simp: start_cameras_Cons start_camera_events simp del: start_cameras.simps(2))

lemma start_cameras_started:
  "count_list (snd (start_cameras cams reg)) (Started k) =
     (if k \<in> cam_id ` set cams \<and> \<not> worker_alive reg k then 1 else 0)"
  by (induction cams arbitrary: reg)
     (auto simp: start_cameras_Cons start_camera_events start_camera_alive
           simp del: start_cameras.simps(2))

lemma start_cameras_kept:
  "k \<notin> cam_id ` set cams \<or> worker_alive reg k \<Longrightarrow>
   map_of (fst (start_cameras cams reg)) k = map_of reg k"
proof (induction cams arbitrary: reg)
  case Nil
  then show ?case by simp
next
  case (Cons c cams)
  have "k \<notin> cam_id ` set cams \<or> worker_alive (fst (start_camera c reg)) k"
    using Cons.prems by (auto simp: start_camera_alive)
  from Cons.IH [OF this] Cons.prems show ?case
    by (auto simp: start_cameras_Cons start_camera_map_of simp del: start_cameras.simps(2))
qed

lemma start_cameras_created:
  "k \<in> cam_id ` set cams \<Longrightarrow> \<not> worker_alive reg k \<Longrightarrow>
   \<exists>w. map_of (fst (start_cameras cams reg)) k = Some w \<and> ct_alive w \<and> ct_camera_id w = k"
proof (induction cams arbitrary: reg)
  case Nil
  then show ?case by simp
next
  case (Cons c cams)
  let ?reg1 = "fst (start_camera c reg)"
  show ?case
  proof (cases "k = cam_id c")
    case True
    then have m: "map_of ?reg1 k = Some (new_camera_thread c)"
      using Cons.prems(2) by (simp add: start_camera_map_of)
    have "worker_alive ?reg1 k" using True by (simp add: start_camera_alive)
    then have "map_of (fst (start_cameras cams ?reg1)) k = map_of ?reg1 k"
      by (intro start_cameras_kept) simp
    with m True show ?thesis
      by (simp add: start_cameras_Cons new_camera_thread_def del: start_cameras.simps(2))
  next
    case False
    with Cons.prems have "k \<in> cam_id ` set cams" "\<not> worker_alive ?reg1 k"
      by (auto simp: start_camera_alive)
    from Cons.IH [OF this] show ?thesis
      by (simp add: start_cameras_Cons del: start_cameras.simps(2))
  qed
qed

text \<open>What a cycle does, for any outcome of the fetch.\<close>

lemma sync_cameras_unfold:
  "sync_cameras response reg =
     (fst (start_cameras (get_company_cameras response)
        (fst (stop_cameras
           (filter (\<lambda>k. k \<notin> cam_id ` set (get_company_cameras response)) (map fst reg)) reg))),
      snd (stop_cameras
           (filter (\<lambda>k. k \<notin> cam_id ` set (get_company_cameras response)) (map fst reg)) reg) @
      snd (start_cameras (get_company_cameras response)
        (fst (stop_cameras
           (filter (\<lambda>k. k \<notin> cam_id ` set (get_company_cameras response)) (map fst reg)) reg))))"
  by (simp add: sync_cameras_def Let_def split: prod.splits)

lemma sync_cameras_effect:
  assumes d: "distinct (map fst reg)"
    and ids: "ids = cam_id ` set (get_company_cameras response)"
  shows "count_list (snd (sync_cameras response reg)) (Stopped k) =
           (if k \<in> fst ` set reg \<and> k \<notin> ids then 1 else 0)"
    and "count_list (snd (sync_cameras response reg)) (Started k) =
           (if k \<in> ids \<and> \<not> worker_alive reg k then 1 else 0)"
    and "k \<notin> ids \<Longrightarrow> map_of (fst (sync_cameras response reg)) k = None"
    and "k \<in> ids \<Longrightarrow> worker_alive reg k \<Longrightarrow>
           map_of (fst (sync_cameras response reg)) k = map_of reg k"
    and "k \<in> ids \<Longrightarrow> \<not> worker_alive reg k \<Longrightarrow>
           \<exists>w. map_of (fst (sync_cameras response reg)) k = Some w \<and> ct_alive w \<and> ct_camera_id w = k"
proof -
  let ?cams = "get_company_cameras response"
  let ?gone = "filter (\<lambda>k. k \<notin> cam_id ` set ?cams) (map fst reg)"
  let ?reg1 = "fst (stop_cameras ?gone reg)"
  have dg: "distinct ?gone" using d by simp
  have sg: "set ?gone \<subseteq> fst ` set reg" by auto
  have ev1: "snd (stop_cameras ?gone reg) = map Stopped ?gone"
    by (rule stop_cameras_events [OF dg sg])
  have m1: "\<And>j. map_of ?reg1 j = (if j \<in> set ?gone then None else map_of reg j)"
    by (rule stop_cameras_map_of)
  have a1: "\<And>j. j \<in> ids \<Longrightarrow> worker_alive ?reg1 j = worker_alive reg j"
    by (simp add: worker_alive_def m1 ids)
  have cs: "count_list (map Stopped ?gone) (Stopped k) = (if k \<in> set ?gone then 1 else 0)"
  proof -
    have "count_list (map Stopped ?gone) (Stopped k) = count_list ?gone k"
      by (rule count_list_map_Stopped)
    then show ?thesis using count_list_distinct [OF dg, of k] by simp
  qed
  have cst: "count_list (map Stopped ?gone) (Started k) = 0"
    by (rule count_list_map_Stopped_Started)
  have css: "count_list (snd (start_cameras ?cams ?reg1)) (Stopped k) = 0"
    using start_cameras_stopped by simp
  show "count_list (snd (sync_cameras response reg)) (Stopped k) =
           (if k \<in> fst ` set reg \<and> k \<notin> ids then 1 else 0)"
    unfolding sync_cameras_unfold ev1 using cs css by (auto simp: ids)
  show "count_list (snd (sync_cameras response reg)) (Started k) =
           (if k \<in> ids \<and> \<not> worker_alive reg k then 1 else 0)"
    unfolding sync_cameras_unfold ev1 using cst a1 [of k]
    by (auto simp: start_cameras_started ids)
  show "k \<notin> ids \<Longrightarrow> map_of (fst (sync_cameras response reg)) k = None"
  proof -
    assume k: "k \<notin> ids"
    then have "map_of (fst (start_cameras ?cams ?reg1)) k = map_of ?reg1 k"
      by (intro start_cameras_kept) (simp add: ids)
    also have "\<dots> = None" using k by (auto simp: m1 ids keys_iff [symmetric] map_of_eq_None_iff)
    finally show ?thesis unfolding sync_cameras_unfold by simp
  qed
  show "k \<in> ids \<Longrightarrow> worker_alive reg k \<Longrightarrow>
           map_of (fst (sync_cameras response reg)) k = map_of reg k"
  proof -
    assume k: "k \<in> ids" "worker_alive reg k"
    then have "worker_alive ?reg1 k" using a1 by simp
    then have "map_of (fst (start_cameras ?cams ?reg1)) k = map_of ?reg1 k"
      by (intro start_cameras_kept) simp
    also have "\<dots> = map_of reg k" using k by (simp add: m1 ids)
    finally show ?thesis unfolding sync_cameras_unfold by simp
  qed
  show "k \<in> ids \<Longrightarrow> \<not> worker_alive reg k \<Longrightarrow>
           \<exists>w. map_of (fst (sync_cameras response reg)) k = Some w \<and> ct_alive w \<and> ct_camera_id w = k"
  proof -
    assume k: "k \<in> ids" "\<not> worker_alive reg k"
    then have "\<not> worker_alive ?reg1 k" using a1 by simp
    with k(1) show ?thesis unfolding sync_cameras_unfold
      using start_cameras_created [of k ?cams ?reg1] by (simp add: ids)
  qed
qed

lemma in_set_count_list: "e \<in> set xs \<longleftrightarrow> count_list xs e \<noteq> 0"
  by (induction xs) auto

text \<open>
  Claim C9: in a cycle of \<^verbatim>\<open>sync_cameras\<close> with workers registered for exactly the
  cameras 1 and 2, the worker of camera 2 alive, and a successfully fetched roster with
  exactly the camera ids 2 and 3: afterwards the registry holds exactly the cameras 2 and 3;
  the worker of camera 1 was stopped (once) and removed, a worker for camera 3 was created
  and started (once), and the worker of camera 2 is the same object as before: the only
  events of the cycle are the stop of 1 and the start of 3.
\<close>

theorem sync_cameras_example:
  assumes "distinct (map fst reg)" and "fst ` set reg = {1, 2}"
    and "map_of reg 2 = Some w2" and "ct_alive w2"
    and "cam_id ` set cams = {2, 3}"
  shows "fst ` set (fst (sync_cameras (Inr cams) reg)) = {2, 3} \<and>
         map_of (fst (sync_cameras (Inr cams) reg)) 1 = None \<and>
         map_of (fst (sync_cameras (Inr cams) reg)) 2 = Some w2 \<and>
         (\<exists>w3. map_of (fst (sync_cameras (Inr cams) reg)) 3 = Some w3 \<and>
               ct_alive w3 \<and> ct_camera_id w3 = 3) \<and>
         set (snd (sync_cameras (Inr cams) reg)) = {Stopped 1, Started 3} \<and>
         count_list (snd (sync_cameras (Inr cams) reg)) (Stopped 1) = 1 \<and>
         count_list (snd (sync_cameras (Inr cams) reg)) (Started 3) = 1"
proof -
  let ?r = "sync_cameras (Inr cams) reg"
  have ids: "{2, 3} = cam_id ` set (get_company_cameras (Inr cams))"
    using assms(5) by (simp add: get_company_cameras_def)
  note eff = sync_cameras_effect [OF assms(1) ids]
  have a2: "worker_alive reg 2" using assms(3,4) by (simp add: worker_alive_def)
  have "3 \<notin> fst ` set reg" using assms(2) by simp
  then have n3: "map_of reg 3 = None" by (simp add: map_of_eq_None_iff)
  then have a3: "\<not> worker_alive reg 3" by (simp add: worker_alive_def)
  have m: "\<And>k. k \<notin> {2, 3} \<Longrightarrow> map_of (fst ?r) k = None" by (rule eff(3))
  have m2: "map_of (fst ?r) 2 = Some w2" using eff(4) [of 2] a2 assms(3) by simp
  have m3: "\<exists>w3. map_of (fst ?r) 3 = Some w3 \<and> ct_alive w3 \<and> ct_camera_id w3 = 3"
    using eff(5) [of 3] a3 by simp
  have keys: "fst ` set (fst ?r) = {2, 3}"
  proof (rule set_eqI)
    fix k
    show "k \<in> fst ` set (fst ?r) \<longleftrightarrow> k \<in> {2, 3}"
    proof (cases "k \<in> {2, 3}")
      case True
      then show ?thesis unfolding keys_iff using m2 m3 by auto
    next
      case False
      from m [OF False] False show ?thesis unfolding keys_iff by simp
    qed
  qed
  have cs: "\<And>k. count_list (snd ?r) (Stopped k) = (if k = 1 then 1 else 0)"
    using eff(1) assms(2) by auto
  have ct: "\<And>k. count_list (snd ?r) (Started k) = (if k = 3 then 1 else 0)"
    using eff(2) a2 a3 by auto
  have evs: "set (snd ?r) = {Stopped 1, Started 3}"
  proof (rule set_eqI)
    fix e
    show "e \<in> set (snd ?r) \<longleftrightarrow> e \<in> {Stopped 1, Started 3}"
      unfolding in_set_count_list by (cases e) (simp_all add: cs ct)
  qed
  show ?thesis using keys m [of 1] m2 m3 evs cs [of 1] ct [of 3] by simp
qed

lemmas manager_eval =
  sync_cameras_def get_company_cameras_def stop_camera_def start_camera_def
  new_camera_thread_def cam2_def cam3_def reg12_def Let_def

theorem sync_cameras_example_witness:
  "sync_cameras (Inr [cam2, cam3]) reg12 =
     ([(2, new_camera_thread cam2), (3, new_camera_thread cam3)], [Stopped 1, Started 3])"
  using sync_cameras_example [of reg12 "new_camera_thread cam2" "[cam2, cam3]"]
  by (simp add: manager_eval)

text \<open>
  Claim C1 fails on the code: \<^verbatim>\<open>get_company_cameras\<close> turns a failed fetch into the
  empty roster, and \<^verbatim>\<open>sync_cameras\<close> cannot tell it from a roster without cameras. A
  cycle whose fetch fails stops every registered worker, in the order of the registry, and
  leaves the registry empty.
\<close>

theorem sync_cameras_fetch_failure:
  assumes "distinct (map fst reg)"
  shows "sync_cameras (Inl err) reg = ([], map Stopped (map fst reg))"
proof -
  let ?r = "sync_cameras (Inl err) reg"
  have ids: "{} = cam_id ` set (get_company_cameras (Inl err))"
    by (simp add: get_company_cameras_def)
  have "map_of (fst ?r) = Map.empty"
    using sync_cameras_effect(3) [OF assms ids] by (simp add: fun_eq_iff)
  then have f: "fst ?r = []" by (simp add: map_of_eq_empty_iff)
  have "snd ?r = snd (stop_cameras (map fst reg) reg)"
    unfolding sync_cameras_unfold by (simp add: get_company_cameras_def)
  also have "\<dots> = map Stopped (map fst reg)"
    using assms by (intro stop_cameras_events) auto
  finally show ?thesis using f by (simp add: prod_eq_iff)
qed

theorem sync_cameras_fetch_failure_witness:
  "sync_cameras (Inl RequestException) reg12 = ([], [Stopped 1, Stopped 2]) \<and>
   map fst reg12 = [1, 2] \<and> worker_alive reg12 1 \<and> worker_alive reg12 2"
  using sync_cameras_fetch_failure [of reg12 RequestException]
  by (simp add: reg12_def worker_alive_def new_camera_thread_def)

section \<open>Properties of the MJPEG reader\<close>

lemma find_at_found_length: "find_at sub xs i \<noteq> - 1 \<Longrightarrow> length sub \<le> length xs"
proof (induction xs arbitrary: i)
  case Nil
  then show ?case by (simp split: if_splits)
next
  case (Cons b bs)
  show ?case
  proof (cases "prefix sub (b # bs)")
    case True
    then show ?thesis by (rule prefix_length_le)
  next
    case False
    with Cons.prems have "find_at sub bs (Suc i) \<noteq> - 1" by simp
    from Cons.IH [OF this] show ?thesis by simp
  qed
qed

lemma find_at_append: "find_at sub xs i \<noteq> - 1 \<Longrightarrow> find_at sub (xs @ ys) i = find_at sub xs i"
proof (induction xs arbitrary: i)
  case Nil
  then have "sub = []" by (simp split: if_splits)
  then show ?case by (cases ys) simp_all
next
  case (Cons b bs)
  show ?case
  proof (cases "prefix sub (b # bs)")
    case True
    then have "prefix sub ((b # bs) @ ys)" by (rule prefix_prefix)
    with True show ?thesis by simp
  next
    case False
    with Cons.prems have f: "find_at sub bs (Suc i) \<noteq> - 1" by simp
    then have "length sub \<le> length bs" by (rule find_at_found_length)
    then have "length sub \<le> length (b # bs)" by simp
    have "\<not> prefix sub ((b # bs) @ ys)"
    proof
      assume "prefix sub ((b # bs) @ ys)"
      then have "prefix sub (b # bs) \<or> (\<exists>us. sub = (b # bs) @ us \<and> prefix us ys)"
        by (simp only: prefix_append)
      with False obtain us where "sub = (b # bs) @ us" by blast
      with \<open>length sub \<le> length (b # bs)\<close> have "us = []" by simp
      with \<open>sub = (b # bs) @ us\<close> False show False by simp
    qed
    with False Cons.IH [OF f] show ?thesis by simp
  qed
qed

lemma bytes_find_append:
  "bytes_find xs sub \<noteq> - 1 \<Longrightarrow> bytes_find (xs @ ys) sub = bytes_find xs sub"
  by (simp add: bytes_find_def find_at_append)

lemma read_loop_return:
  "mj_stream st = Some stream \<Longrightarrow> read_step imdecode stream st = (st', Some r) \<Longrightarrow>
   read_loop imdecode st = Some (r, st')"
  by (subst read_loop.simps) simp

lemma read_loop_continue:
  "mj_stream st = Some stream \<Longrightarrow> read_step imdecode stream st = (st', None) \<Longrightarrow>
   read_loop imdecode st = read_loop imdecode st'"
  by (subst read_loop.simps) simp

text \<open>A decodable frame at the front of the buffer is returned; what follows it is
  kept, however long it is: the iteration returns before the limit is checked.\<close>

lemma mjpeg_read_frame_at_front:
  assumes "mj_opened st" and "mj_stream st = Some stream"
    and "stream (mj_pos st) = Chunk chunk"
    and "mj_buffer st @ chunk = F @ rest"
    and "bytes_find F soi = 0" and "bytes_find F eoi = int (length F) - 2" and "2 < length F"
    and "imdecode F = Inr (Some frame)"
  shows "mjpeg_read imdecode st =
           Some ((True, Some frame), st\<lparr>mj_pos := Suc (mj_pos st), mj_buffer := rest\<rparr>)"
proof -
  have s: "bytes_find (F @ rest) soi = 0"
    using bytes_find_append [of F soi rest] assms(5) by simp
  have e: "bytes_find (F @ rest) eoi = int (length F) - 2"
    using bytes_find_append [of F eoi rest] assms(6,7) by simp
  have n: "nat (int (length F) - 2 + 2) = length F" by simp
  have "read_step imdecode stream st =
          (st\<lparr>mj_pos := Suc (mj_pos st), mj_buffer := rest\<rparr>, Some (True, Some frame))"
    using assms(3,7,8) by (simp add: read_step_def assms(4) s e n Let_def)
  from read_loop_return [OF assms(2) this] assms(1,2) show ?thesis
    by (simp add: mjpeg_read_def)
qed

lemma concat_replicate_commute: "concat (replicate k F) @ F = F @ concat (replicate k F)"
  by (induction k) simp_all

lemma length_concat_replicate: "length (concat (replicate k F)) = k * length F"
  by (induction k) simp_all

lemma tiny_frame_find:
  "bytes_find tiny_frame soi = 0" "bytes_find tiny_frame eoi = int (length tiny_frame) - 2"
  "2 < length tiny_frame" "length tiny_frame = 331"
  by (simp_all add: bytes_find_def tiny_frame_def soi_def eoi_def)

lemma tiny_stream_read:
  "mjpeg_read decode_frame
     ((fresh_capture tiny_stream)\<lparr>mj_pos := p, mj_buffer := concat (replicate k tiny_frame)\<rparr>) =
   Some ((True, Some (8, 8)),
     (fresh_capture tiny_stream)\<lparr>mj_pos := Suc p, mj_buffer := concat (replicate (Suc k) tiny_frame)\<rparr>)"
proof -
  let ?st = "(fresh_capture tiny_stream)\<lparr>mj_pos := p, mj_buffer := concat (replicate k tiny_frame)\<rparr>"
  have b: "mj_buffer ?st @ (tiny_frame @ tiny_frame) = tiny_frame @ concat (replicate (Suc k) tiny_frame)"
  proof -
    have "concat (replicate k tiny_frame) @ tiny_frame @ tiny_frame =
            (concat (replicate k tiny_frame) @ tiny_frame) @ tiny_frame" by simp
    also have "\<dots> = (tiny_frame @ concat (replicate k tiny_frame)) @ tiny_frame"
      by (simp only: concat_replicate_commute)
    also have "\<dots> = tiny_frame @ (concat (replicate k tiny_frame) @ tiny_frame)" by simp
    also have "\<dots> = tiny_frame @ (tiny_frame @ concat (replicate k tiny_frame))"
      by (simp only: concat_replicate_commute)
    finally show ?thesis by simp
  qed
  have "mjpeg_read decode_frame ?st =
          Some ((True, Some (8, 8)),
                ?st\<lparr>mj_pos := Suc (mj_pos ?st), mj_buffer := concat (replicate (Suc k) tiny_frame)\<rparr>)"
    by (rule mjpeg_read_frame_at_front [OF _ _ _ b tiny_frame_find(1,2,3)])
       (simp_all add: fresh_capture_def tiny_stream_def decode_frame_def)
  then show ?thesis by (simp add: fresh_capture_def)
qed

lemma tiny_stream_reads:
  "mjpeg_reads decode_frame n
     ((fresh_capture tiny_stream)\<lparr>mj_pos := p, mj_buffer := concat (replicate k tiny_frame)\<rparr>) =
   Some (replicate n (True, Some (8, 8)),
     (fresh_capture tiny_stream)\<lparr>mj_pos := p + n, mj_buffer := concat (replicate (k + n) tiny_frame)\<rparr>)"
proof (induction n arbitrary: p k)
  case 0
  show ?case by simp
next
  case (Suc n)
  have r: "mjpeg_reads decode_frame (Suc n)
             ((fresh_capture tiny_stream)\<lparr>mj_pos := p, mj_buffer := concat (replicate k tiny_frame)\<rparr>) =
           (case mjpeg_reads decode_frame n
                   ((fresh_capture tiny_stream)\<lparr>mj_pos := Suc p,
                      mj_buffer := concat (replicate (Suc k) tiny_frame)\<rparr>) of
              None \<Rightarrow> None
            | Some (rs, st2) \<Rightarrow> Some ((True, Some (8, 8)) # rs, st2))"
    by (simp only: mjpeg_reads.simps tiny_stream_read option.case prod.case)
  have ih: "mjpeg_reads decode_frame n
              ((fresh_capture tiny_stream)\<lparr>mj_pos := Suc p,
                 mj_buffer := concat (replicate (Suc k) tiny_frame)\<rparr>) =
            Some (replicate n (True, Some (8, 8)),
              (fresh_capture tiny_stream)\<lparr>mj_pos := Suc p + n,
                 mj_buffer := concat (replicate (Suc k + n) tiny_frame)\<rparr>)"
    by (rule Suc.IH)
  have "mjpeg_reads decode_frame (Suc n)
             ((fresh_capture tiny_stream)\<lparr>mj_pos := p, mj_buffer := concat (replicate k tiny_frame)\<rparr>) =
        Some ((True, Some (8, 8)) # replicate n (True, Some (8, 8)),
              (fresh_capture tiny_stream)\<lparr>mj_pos := Suc p + n,
                 mj_buffer := concat (replicate (Suc k + n) tiny_frame)\<rparr>)"
    by (simp only: r ih option.case prod.case)
  then show ?case by simp
qed




lemma read_step_result:
  "read_step imdecode stream st = (st', Some r) \<Longrightarrow> r = (False, None) \<or> (\<exists>f. r = (True, Some f))"
  by (auto simp: read_step_def Let_def split: stream_item.splits if_splits sum.splits option.splits)

lemma read_loop_result:
  fixes imdecode :: "bytes \<Rightarrow> py_error + 'f option"
  assumes "read_loop imdecode st = Some y"
  shows "fst y = (False, None) \<or> (\<exists>f. fst y = (True, Some f))"
proof (rule read_loop.raw_induct
    [where P = "\<lambda>_ _ y. fst y = (False, None) \<or> (\<exists>f. fst y = (True, Some f))", OF _ assms])
  fix loop and dec :: "bytes \<Rightarrow> py_error + 'f option" and s :: mjpeg_capture
    and z :: "(bool \<times> 'f option) \<times> mjpeg_capture"
  assume IH: "\<And>d b y. loop d b = Some y \<Longrightarrow> fst y = (False, None) \<or> (\<exists>f. fst y = (True, Some f))"
    and eq: "(case mj_stream s of None \<Rightarrow> Some ((False, None), s)
              | Some stream \<Rightarrow>
                  (case read_step dec stream s of
                     (st', None) \<Rightarrow> loop dec st'
                   | (st', Some result) \<Rightarrow> Some (result, st'))) = Some z"
  show "fst z = (False, None) \<or> (\<exists>f. fst z = (True, Some f))"
  proof (cases "mj_stream s")
    case None
    with eq show ?thesis by auto
  next
    case (Some stream)
    obtain st1 res where step: "read_step dec stream s = (st1, res)"
      by (cases "read_step dec stream s")
    show ?thesis
    proof (cases res)
      case None
      with eq Some step have "loop dec st1 = Some z" by simp
      then show ?thesis by (rule IH)
    next
      case (Some r)
      with eq \<open>mj_stream s = Some stream\<close> step have "z = (r, st1)" by auto
      with read_step_result [of dec stream s st1 r] step Some show ?thesis by auto
    qed
  qed
qed

lemma read_step_continue_state:
  "read_step imdecode stream st = (st', None) \<Longrightarrow>
   mj_opened st' = mj_opened st \<and> mj_stream st' = mj_stream st \<and>
   length (mj_buffer st') \<le> buffer_limit"
  by (auto simp: read_step_def Let_def split: stream_item.splits if_splits sum.splits option.splits)

lemma mjpeg_read_guards_aux:
  fixes imdecode :: "bytes \<Rightarrow> py_error + 'f option"
  assumes "mj_opened st" and "mj_stream st = Some stream"
  shows
   "(stream (mj_pos st) = Chunk chunk \<and>
     \<not> (bytes_find (mj_buffer st @ chunk) soi \<noteq> - 1 \<and>
        bytes_find (mj_buffer st @ chunk) eoi \<noteq> - 1 \<and>
        bytes_find (mj_buffer st @ chunk) eoi > bytes_find (mj_buffer st @ chunk) soi) \<and>
     length (mj_buffer st @ chunk) > buffer_limit
       \<longrightarrow> read_step imdecode stream st =
             (st\<lparr>mj_pos := Suc (mj_pos st), mj_buffer := []\<rparr>, None)) \<and>
    (read_step imdecode stream st = (st', None)
       \<longrightarrow> length (mj_buffer st') \<le> buffer_limit \<and>
           mjpeg_read imdecode st = mjpeg_read imdecode st') \<and>
    (stream (mj_pos st) = StreamRaises
       \<longrightarrow> mjpeg_read imdecode st =
             Some ((False, None), st\<lparr>mj_stream := Some (\<lambda>_. StreamEnd)\<rparr>)) \<and>
    (stream (mj_pos st) = StreamEnd \<longrightarrow> mjpeg_read imdecode st = Some ((False, None), st)) \<and>
    (stream (mj_pos st) = Chunk chunk \<and>
     bytes_find (mj_buffer st @ chunk) soi \<noteq> - 1 \<and>
     bytes_find (mj_buffer st @ chunk) eoi > bytes_find (mj_buffer st @ chunk) soi \<and>
     imdecode (take (nat (bytes_find (mj_buffer st @ chunk) eoi + 2) -
                     nat (bytes_find (mj_buffer st @ chunk) soi))
                 (drop (nat (bytes_find (mj_buffer st @ chunk) soi)) (mj_buffer st @ chunk)))
       = Inl err
       \<longrightarrow> mjpeg_read imdecode st =
             Some ((False, None),
               st\<lparr>mj_pos := Suc (mj_pos st),
                  mj_buffer := drop (nat (bytes_find (mj_buffer st @ chunk) eoi + 2))
                                 (mj_buffer st @ chunk)\<rparr>)) \<and>
    (mjpeg_read imdecode st = Some (r, st'')
       \<longrightarrow> r = (False, None) \<or> (\<exists>frame. r = (True, Some frame)))"
proof (intro conjI)
  show "stream (mj_pos st) = Chunk chunk \<and>
     \<not> (bytes_find (mj_buffer st @ chunk) soi \<noteq> - 1 \<and>
        bytes_find (mj_buffer st @ chunk) eoi \<noteq> - 1 \<and>
        bytes_find (mj_buffer st @ chunk) eoi > bytes_find (mj_buffer st @ chunk) soi) \<and>
     length (mj_buffer st @ chunk) > buffer_limit
       \<longrightarrow> read_step imdecode stream st =
             (st\<lparr>mj_pos := Suc (mj_pos st), mj_buffer := []\<rparr>, None)"
    by (auto simp: read_step_def Let_def)
next
  show "read_step imdecode stream st = (st', None)
       \<longrightarrow> length (mj_buffer st') \<le> buffer_limit \<and>
           mjpeg_read imdecode st = mjpeg_read imdecode st'"
  proof
    assume step: "read_step imdecode stream st = (st', None)"
    note c = read_step_continue_state [OF step]
    have "read_loop imdecode st = read_loop imdecode st'"
      by (rule read_loop_continue [OF assms(2) step])
    with c assms show "length (mj_buffer st') \<le> buffer_limit \<and>
           mjpeg_read imdecode st = mjpeg_read imdecode st'"
      by (simp add: mjpeg_read_def)
  qed
next
  show "stream (mj_pos st) = StreamRaises
       \<longrightarrow> mjpeg_read imdecode st =
             Some ((False, None), st\<lparr>mj_stream := Some (\<lambda>_. StreamEnd)\<rparr>)"
  proof
    assume "stream (mj_pos st) = StreamRaises"
    then have "read_step imdecode stream st =
                 (st\<lparr>mj_stream := Some (\<lambda>_. StreamEnd)\<rparr>, Some (False, None))"
      by (simp add: read_step_def)
    from read_loop_return [OF assms(2) this] assms
    show "mjpeg_read imdecode st =
             Some ((False, None), st\<lparr>mj_stream := Some (\<lambda>_. StreamEnd)\<rparr>)"
      by (simp add: mjpeg_read_def)
  qed
next
  show "stream (mj_pos st) = StreamEnd \<longrightarrow> mjpeg_read imdecode st = Some ((False, None), st)"
  proof
    assume "stream (mj_pos st) = StreamEnd"
    then have "read_step imdecode stream st = (st, Some (False, None))"
      by (simp add: read_step_def)
    from read_loop_return [OF assms(2) this] assms
    show "mjpeg_read imdecode st = Some ((False, None), st)"
      by (simp add: mjpeg_read_def)
  qed
next
  let ?buf = "mj_buffer st @ chunk"
  show "stream (mj_pos st) = Chunk chunk \<and>
     bytes_find ?buf soi \<noteq> - 1 \<and> bytes_find ?buf eoi > bytes_find ?buf soi \<and>
     imdecode (take (nat (bytes_find ?buf eoi + 2) - nat (bytes_find ?buf soi))
                 (drop (nat (bytes_find ?buf soi)) ?buf)) = Inl err
       \<longrightarrow> mjpeg_read imdecode st =
             Some ((False, None),
               st\<lparr>mj_pos := Suc (mj_pos st),
                  mj_buffer := drop (nat (bytes_find ?buf eoi + 2)) ?buf\<rparr>)"
  proof
    assume a: "stream (mj_pos st) = Chunk chunk \<and>
     bytes_find ?buf soi \<noteq> - 1 \<and> bytes_find ?buf eoi > bytes_find ?buf soi \<and>
     imdecode (take (nat (bytes_find ?buf eoi + 2) - nat (bytes_find ?buf soi))
                 (drop (nat (bytes_find ?buf soi)) ?buf)) = Inl err"
    have ge: "\<And>b s. - 1 \<le> bytes_find b s"
    proof -
      have "\<And>s b i. - 1 \<le> find_at s b i"
      proof -
        fix s b i show "- 1 \<le> find_at s b i" by (induction b arbitrary: i) auto
      qed
      then show "\<And>b s. - 1 \<le> bytes_find b s" by (simp add: bytes_find_def)
    qed
    from a ge [of ?buf soi] have "bytes_find ?buf eoi \<noteq> - 1" by linarith
    with a have "read_step imdecode stream st =
                 (st\<lparr>mj_pos := Suc (mj_pos st),
                     mj_buffer := drop (nat (bytes_find ?buf eoi + 2)) ?buf\<rparr>, Some (False, None))"
      by (simp add: read_step_def Let_def)
    from read_loop_return [OF assms(2) this] assms
    show "mjpeg_read imdecode st =
             Some ((False, None),
               st\<lparr>mj_pos := Suc (mj_pos st),
                  mj_buffer := drop (nat (bytes_find ?buf eoi + 2)) ?buf\<rparr>)"
      by (simp add: mjpeg_read_def)
  qed
next
  show "mjpeg_read imdecode st = Some (r, st'')
       \<longrightarrow> r = (False, None) \<or> (\<exists>frame. r = (True, Some frame))"
  proof
    assume "mjpeg_read imdecode st = Some (r, st'')"
    with assms have "read_loop imdecode st = Some (r, st'')" by (simp add: mjpeg_read_def)
    from read_loop_result [OF this]
    show "r = (False, None) \<or> (\<exists>frame. r = (True, Some frame))" by simp
  qed
qed

text \<open>
  Claim C8, as the code has it, for an opened capture: an iteration of \<^verbatim>\<open>read\<close> that
  finds no complete frame in the buffer (no start marker \<open>FF D8\<close>, no end marker
  \<open>FF D9\<close>, or the first end marker not after the first start marker) and leaves more
  than 10 MiB in it discards the whole buffer before the next chunk is read; after every
  iteration after which the loop goes on, the buffer holds at most 10 MiB and the call
  continues from that state. An exception of the stream or of the decoder makes
  \<^verbatim>\<open>read\<close> return \<open>(False, None)\<close>, as does the end of the stream, and whatever
  \<^verbatim>\<open>read\<close> returns is \<open>(False, None)\<close> or \<open>(True, frame)\<close>: no exception leaves
  it. The limit is not checked in an iteration that returns, with a frame or with a failure.
\<close>

theorem mjpeg_read_guards:
  fixes imdecode :: "bytes \<Rightarrow> py_error + 'f option"
  assumes "mj_opened st" and "mj_stream st = Some stream"
  shows
   "(stream (mj_pos st) = Chunk chunk \<and>
     \<not> (bytes_find (mj_buffer st @ chunk) [CHR 0xFF, CHR 0xD8] \<noteq> - 1 \<and>
        bytes_find (mj_buffer st @ chunk) [CHR 0xFF, CHR 0xD9] \<noteq> - 1 \<and>
        bytes_find (mj_buffer st @ chunk) [CHR 0xFF, CHR 0xD9] > bytes_find (mj_buffer st @ chunk) [CHR 0xFF, CHR 0xD8]) \<and>
     length (mj_buffer st @ chunk) > 10 * 1024 * 1024
       \<longrightarrow> read_step imdecode stream st =
             (st\<lparr>mj_pos := Suc (mj_pos st), mj_buffer := []\<rparr>, None)) \<and>
    (read_step imdecode stream st = (st', None)
       \<longrightarrow> length (mj_buffer st') \<le> 10 * 1024 * 1024 \<and>
           mjpeg_read imdecode st = mjpeg_read imdecode st') \<and>
    (stream (mj_pos st) = StreamRaises
       \<longrightarrow> mjpeg_read imdecode st =
             Some ((False, None), st\<lparr>mj_stream := Some (\<lambda>_. StreamEnd)\<rparr>)) \<and>
    (stream (mj_pos st) = StreamEnd \<longrightarrow> mjpeg_read imdecode st = Some ((False, None), st)) \<and>
    (stream (mj_pos st) = Chunk chunk \<and>
     bytes_find (mj_buffer st @ chunk) [CHR 0xFF, CHR 0xD8] \<noteq> - 1 \<and>
     bytes_find (mj_buffer st @ chunk) [CHR 0xFF, CHR 0xD9] > bytes_find (mj_buffer st @ chunk) [CHR 0xFF, CHR 0xD8] \<and>
     imdecode (take (nat (bytes_find (mj_buffer st @ chunk) [CHR 0xFF, CHR 0xD9] + 2) -
                     nat (bytes_find (mj_buffer st @ chunk) [CHR 0xFF, CHR 0xD8]))
                 (drop (nat (bytes_find (mj_buffer st @ chunk) [CHR 0xFF, CHR 0xD8])) (mj_buffer st @ chunk)))
       = Inl err
       \<longrightarrow> mjpeg_read imdecode st =
             Some ((False, None),
               st\<lparr>mj_pos := Suc (mj_pos st),
                  mj_buffer := drop (nat (bytes_find (mj_buffer st @ chunk) [CHR 0xFF, CHR 0xD9] + 2))
                                 (mj_buffer st @ chunk)\<rparr>)) \<and>
    (mjpeg_read imdecode st = Some (r, st'')
       \<longrightarrow> r = (False, None) \<or> (\<exists>frame. r = (True, Some frame)))"
proof -
  note aux = mjpeg_read_guards_aux [OF assms, unfolded soi_def eoi_def buffer_limit_def]
  show ?thesis by (rule aux)
qed

theorem mjpeg_read_guards_witness:
  "mjpeg_read decode_frame (fresh_capture broken_stream) =
     Some ((False, None),
       \<lparr>mj_opened = True, mj_stream = Some (\<lambda>_. StreamEnd), mj_pos = 1, mj_buffer = [CHR 0x00]\<rparr>)"
  using mjpeg_read_guards [of "fresh_capture broken_stream" broken_stream "[CHR 0x00]" decode_frame
      "\<lparr>mj_opened = True, mj_stream = Some broken_stream, mj_pos = 1, mj_buffer = [CHR 0x00]\<rparr>"]
    mjpeg_read_guards [of
      "\<lparr>mj_opened = True, mj_stream = Some broken_stream, mj_pos = 1, mj_buffer = [CHR 0x00]\<rparr>"
      broken_stream "[]" decode_frame]
  by (simp add: fresh_capture_def broken_stream_def read_step_def bytes_find_def soi_def eoi_def
        buffer_limit_def Let_def)

lemma list_all_replicate_fst: "list_all fst (replicate n (True, x))"
  by (induction n) simp_all

text \<open>
  Claim C8 as stated fails in its consequence that the retained buffer never grows without
  bound: on a stream whose chunks each carry two complete images that decode, every call of
  \<^verbatim>\<open>read\<close> takes one chunk and returns one image before the limit is checked, so the
  buffer grows by one image per call. The stream delivers chunks of 662 bytes, each two
  copies of a JPEG image of 331 bytes. After 31680 calls on a fresh capture, all of which
  returned a frame, the buffer holds 10486080 bytes, more than the limit of 10485760, and
  nothing was discarded. \<open>tiny_stream_reads\<close> gives the length after any number of
  calls, and \<open>mjpeg_read_frame_at_front\<close> the same step for every image with the
  markers at its two ends that the decoder accepts.
\<close>

theorem mjpeg_buffer_growth_counterexample:
  "map_option (\<lambda>(results, st). (length results, list_all fst results, length (mj_buffer st)))
     (mjpeg_reads decode_frame 31680 (fresh_capture tiny_stream)) = Some (31680, True, 10486080) \<and>
   buffer_limit = 10485760"
proof -
  have e: "(fresh_capture tiny_stream)\<lparr>mj_pos := 0, mj_buffer := concat (replicate 0 tiny_frame)\<rparr>
             = fresh_capture tiny_stream"
    by (simp add: fresh_capture_def)
  note r = tiny_stream_reads [of 31680 0 0, unfolded e]
  have "map_option (\<lambda>(results, st). (length results, list_all fst results, length (mj_buffer st)))
     (mjpeg_reads decode_frame 31680 (fresh_capture tiny_stream)) =
     Some (31680, True, 31680 * 331)"
    unfolding r
    by (simp add: list_all_replicate_fst length_concat_replicate tiny_frame_find(4))
  then show ?thesis by (simp add: buffer_limit_def)
qed

section \<open>The dictionaries keep distinct keys\<close>

text \<open>The state dict keeps distinct keys.\<close>

lemma presence_init_distinct_aux:
  "distinct (map fst st) \<Longrightarrow>
   distinct (map fst (foldl (\<lambda>st emp_id. AList.update emp_id fresh_state st) st ids))"
  by (induction ids arbitrary: st) (simp_all add: distinct_update)

lemma presence_init_distinct: "distinct (map fst (presence_init ids))"
  unfolding presence_init_def by (rule presence_init_distinct_aux) simp

lemma add_employee_distinct:
  "distinct (map fst st) \<Longrightarrow> distinct (map fst (add_employee e st))"
  by (simp add: add_employee_def distinct_update)

lemma presence_update_distinct:
  "distinct (map fst st) \<Longrightarrow> distinct (map fst (fst (presence_update cfg now D st)))"
  by (simp add: presence_update_def check_states_keys mark_seen_keys)

text \<open>The registry keeps distinct keys.\<close>

lemma stop_camera_distinct:
  "distinct (map fst reg) \<Longrightarrow> distinct (map fst (fst (stop_camera k reg)))"
  by (simp add: stop_camera_def distinct_delete)

lemma start_camera_distinct:
  "distinct (map fst reg) \<Longrightarrow> distinct (map fst (fst (start_camera c reg)))"
  by (simp add: start_camera_def Let_def distinct_update distinct_delete split: option.splits)

lemma stop_cameras_distinct:
  "distinct (map fst reg) \<Longrightarrow> distinct (map fst (fst (stop_cameras ids reg)))"
  by (induction ids arbitrary: reg)
     (simp_all add: stop_cameras_Cons stop_camera_distinct del: stop_cameras.simps(2))

lemma start_cameras_distinct:
  "distinct (map fst reg) \<Longrightarrow> distinct (map fst (fst (start_cameras cams reg)))"
  by (induction cams arbitrary: reg)
     (simp_all add: start_cameras_Cons start_camera_distinct del: start_cameras.simps(2))

lemma sync_cameras_distinct:
  "distinct (map fst reg) \<Longrightarrow> distinct (map fst (fst (sync_cameras response reg)))"
  unfolding sync_cameras_unfold by (simp add: start_cameras_distinct stop_cameras_distinct)

end
